theory Spec2Isabelle
  imports Main
begin

section \<open>Enaml dynamic scoping: \<^verbatim>\<open>enaml/core/dynamic_scope.py\<close>\<close>

subsection \<open>Python values, errors and the store\<close>

text \<open>
  Python values that the scope passes around.  \<open>VRef\<close> is a reference to an object
  (a Declarative owner, a listener, ...), \<open>VDict\<close> a reference to a dict.  Dicts and
  objects live in a store, because the source mutates them in place and several
  references may point to the same one.  Every value has an attribute surface in the
  store, so that \<^verbatim>\<open>getattr\<close> is defined on whatever the owner slot holds.
\<close>

datatype pyval =
    VNone
  | VBool bool
  | VInt int
  | VStr string
  | VRef nat
  | VDict nat

datatype error =
    KeyError string
  | ValueError
  | AttributeError
  | TypeError
  | RuntimeError

text \<open>
  The owner objects (class Declarative) are not part of \<^verbatim>\<open>dynamic_scope.py\<close>; the
  module only uses \<^verbatim>\<open>getattr(o, name)\<close>, \<^verbatim>\<open>setattr(o, name, value)\<close> and
  \<^verbatim>\<open>o.parent\<close> on them.  An object is therefore a parameter of the model: its
  attribute surface \<open>attrs\<close> (a missing name is Python's AttributeError; \<^verbatim>\<open>o.parent\<close>
  is the attribute \<^verbatim>\<open>parent\<close>) and the names \<open>settable\<close> for which \<^verbatim>\<open>setattr\<close> is
  accepted rather than answered with AttributeError.
\<close>

record pyobj =
  attrs :: "string \<rightharpoonup> pyval"
  settable :: "string set"

text \<open>One call \<^verbatim>\<open>listener.dynamic_load(obj, name, value)\<close>: the listener and its arguments.\<close>

type_synonym event = "pyval \<times> pyval \<times> string \<times> pyval"

text \<open>An instance of class Nonlocals: the two entries of its \<^verbatim>\<open>__dict__\<close>.\<close>

record nonlocals =
  nls_obj :: pyval
  nls_listener :: pyval

text \<open>
  The store: the objects, the dicts, the Nonlocals instances allocated so far
  (\<open>nls_count\<close> of them, at the identities \<open>0 ..< nls_count\<close>) and the trace of
  the calls made to listeners.
\<close>

record state =
  objs :: "pyval \<Rightarrow> pyobj"
  dicts :: "nat \<Rightarrow> (string \<rightharpoonup> pyval)"
  nls :: "nat \<Rightarrow> nonlocals"
  nls_count :: nat
  trace :: "event list"

text \<open>An instance of class DynamicScope: its five fields.\<close>

record scope =
  obj :: pyval
  identifiers :: nat
  overrides :: nat
  f_globals :: nat
  listener :: pyval

subsection \<open>Python primitives used by the module\<close>

text \<open>\<^verbatim>\<open>getattr(o, name)\<close>: \<open>None\<close> stands for AttributeError.\<close>

definition getattr :: "state \<Rightarrow> pyval \<Rightarrow> string \<Rightarrow> pyval option" where
  "getattr st ob name = attrs (objs st ob) name"

text \<open>
  \<^verbatim>\<open>setattr(o, name, value)\<close>: \<open>None\<close> stands for AttributeError; an accepted write
  makes the value the attribute \<open>name\<close> of the object and changes nothing else.
\<close>

definition setattr :: "state \<Rightarrow> pyval \<Rightarrow> string \<Rightarrow> pyval \<Rightarrow> state option" where
  "setattr st ob name val =
     (if name \<in> settable (objs st ob)
      then Some (st\<lparr>objs := (objs st)(ob := (objs st ob)\<lparr>attrs := (attrs (objs st ob))(name \<mapsto> val)\<rparr>)\<rparr>)
      else None)"

text \<open>\<^verbatim>\<open>listener.dynamic_load(parent, name, value)\<close>: recorded in the trace.\<close>

definition dynamic_load :: "state \<Rightarrow> pyval \<Rightarrow> pyval \<Rightarrow> string \<Rightarrow> pyval \<Rightarrow> state" where
  "dynamic_load st l parent name val = st\<lparr>trace := trace st @ [(l, parent, name, val)]\<rparr>"

text \<open>\<^verbatim>\<open>name in dct\<close> and \<^verbatim>\<open>dct[name]\<close> on a dict.\<close>

definition dict_contains :: "(string \<rightharpoonup> pyval) \<Rightarrow> string \<Rightarrow> bool" where
  "dict_contains dct name = (dct name \<noteq> None)"

definition dict_getitem :: "(string \<rightharpoonup> pyval) \<Rightarrow> string \<Rightarrow> error + pyval" where
  "dict_getitem dct name = (case dct name of None \<Rightarrow> Inl (KeyError name) | Some v \<Rightarrow> Inr v)"

text \<open>Substring test, Python's \<^verbatim>\<open>name in s\<close> for two strings.\<close>

fun starts_with :: "string \<Rightarrow> string \<Rightarrow> bool" where
  "starts_with s [] = True"
| "starts_with [] (c # cs) = False"
| "starts_with (d # ds) (c # cs) = (d = c \<and> starts_with ds cs)"

fun str_contains :: "string \<Rightarrow> string \<Rightarrow> bool" where
  "str_contains [] sub = (sub = [])"
| "str_contains (d # ds) sub = (starts_with (d # ds) sub \<or> str_contains ds sub)"

text \<open>
  \<^verbatim>\<open>name in v\<close> and \<^verbatim>\<open>v[name]\<close> for a string \<open>name\<close> and an arbitrary value \<open>v\<close>, as
  needed for the value found under \<^verbatim>\<open>'__builtins__'\<close>: a dict answers as a dict, a
  string tests for a substring and refuses a string index, every other value
  supports neither (TypeError).
\<close>

definition py_contains :: "state \<Rightarrow> pyval \<Rightarrow> string \<Rightarrow> error + bool" where
  "py_contains st v name =
     (case v of
        VDict d \<Rightarrow> Inr (dict_contains (dicts st d) name)
      | VStr s \<Rightarrow> Inr (str_contains s name)
      | _ \<Rightarrow> Inl TypeError)"

definition py_getitem :: "state \<Rightarrow> pyval \<Rightarrow> string \<Rightarrow> error + pyval" where
  "py_getitem st v name =
     (case v of
        VDict d \<Rightarrow> dict_getitem (dicts st d) name
      | _ \<Rightarrow> Inl TypeError)"

text \<open>\<^verbatim>\<open>isinstance(v, int)\<close> (bool is a subclass of int) and the integer it denotes.\<close>

fun isinstance_int :: "pyval \<Rightarrow> bool" where
  "isinstance_int (VInt i) = True"
| "isinstance_int (VBool b) = True"
| "isinstance_int v = False"

fun int_of :: "pyval \<Rightarrow> int" where
  "int_of (VInt i) = i"
| "int_of (VBool b) = (if b then 1 else 0)"
| "int_of v = 0"

subsection \<open>class DynamicScope\<close>

text \<open>
  The loop at the end of \<^verbatim>\<open>DynamicScope.__getitem__\<close>.  A cyclic parent chain
  without the attribute makes it run forever: the result \<open>None\<close>.
\<close>

partial_function (option) scope_walk ::
  "scope \<Rightarrow> state \<Rightarrow> string \<Rightarrow> pyval \<Rightarrow> ((error + pyval) \<times> state) option" where
  "scope_walk s st name parent =
     (if parent \<noteq> VNone then
        (case getattr st parent name of
           None \<Rightarrow>
             (case getattr st parent ''parent'' of
                None \<Rightarrow> Some (Inl AttributeError, st)
              | Some p \<Rightarrow> scope_walk s st name p)
         | Some val \<Rightarrow>
             Some (Inr val,
                   if listener s \<noteq> VNone then dynamic_load st (listener s) parent name val else st))
      else Some (Inl (KeyError name), st))"

text \<open>\<^verbatim>\<open>DynamicScope.__getitem__\<close>\<close>

definition scope_getitem ::
  "scope \<Rightarrow> state \<Rightarrow> string \<Rightarrow> ((error + pyval) \<times> state) option" where
  "scope_getitem s st name =
     (let dct = dicts st (overrides s) in
      if dict_contains dct name then Some (dict_getitem dct name, st) else
      let dct = dicts st (identifiers s) in
      if dict_contains dct name then Some (dict_getitem dct name, st) else
      let dct = dicts st (f_globals s) in
      if dict_contains dct name then Some (dict_getitem dct name, st) else
      (case dict_getitem dct ''__builtins__'' of
         Inl e \<Rightarrow> Some (Inl e, st)
       | Inr dct \<Rightarrow>
           (case py_contains st dct name of
              Inl e \<Rightarrow> Some (Inl e, st)
            | Inr True \<Rightarrow> Some (py_getitem st dct name, st)
            | Inr False \<Rightarrow> scope_walk s st name (obj s))))"

text \<open>\<^verbatim>\<open>DynamicScope.__setitem__\<close>\<close>

definition scope_setitem :: "scope \<Rightarrow> state \<Rightarrow> string \<Rightarrow> pyval \<Rightarrow> state" where
  "scope_setitem s st name val =
     st\<lparr>dicts := (dicts st)(overrides s := (dicts st (overrides s))(name \<mapsto> val))\<rparr>"

text \<open>
  \<^verbatim>\<open>DynamicScope.__contains__\<close>.  The scope is returned too, since the method
  assigns to its \<^verbatim>\<open>_listener\<close> field; an exception other than KeyError passes
  through the \<^verbatim>\<open>finally\<close> clause.
\<close>

definition scope_contains ::
  "scope \<Rightarrow> state \<Rightarrow> pyval \<Rightarrow> ((error + bool) \<times> scope \<times> state) option" where
  "scope_contains s st name =
     (case name of
        VStr n \<Rightarrow>
          (let l = listener s;
               s1 = s\<lparr>listener := VNone\<rparr>
           in case scope_getitem s1 st n of
                None \<Rightarrow> None
              | Some (Inl (KeyError k), st') \<Rightarrow> Some (Inr False, s1\<lparr>listener := l\<rparr>, st')
              | Some (Inl e, st') \<Rightarrow> Some (Inl e, s1\<lparr>listener := l\<rparr>, st')
              | Some (Inr v, st') \<Rightarrow> Some (Inr True, s1\<lparr>listener := l\<rparr>, st'))
      | _ \<Rightarrow> Some (Inr False, s, st))"

subsection \<open>class Nonlocals\<close>

text \<open>
  \<^verbatim>\<open>Nonlocals.__init__\<close>: a new instance, at an identity no earlier instance has.
  The result is the identity of the new instance and the store holding it.
\<close>

definition Nonlocals :: "state \<Rightarrow> pyval \<Rightarrow> pyval \<Rightarrow> nat \<times> state" where
  "Nonlocals st ob l =
     (nls_count st,
      st\<lparr>nls := (nls st)(nls_count st := \<lparr>nls_obj = ob, nls_listener = l\<rparr>),
         nls_count := nls_count st + 1\<rparr>)"

text \<open>The loop of \<^verbatim>\<open>Nonlocals.__call__\<close>; it returns \<open>target\<close> and \<open>offset\<close>.\<close>

partial_function (option) nls_call_loop ::
  "state \<Rightarrow> int \<Rightarrow> pyval \<Rightarrow> int \<Rightarrow> (error + pyval \<times> int) option" where
  "nls_call_loop st level target offset =
     (if target \<noteq> VNone \<and> offset \<noteq> level then
        (case getattr st target ''parent'' of
           None \<Rightarrow> Some (Inl AttributeError)
         | Some p \<Rightarrow> nls_call_loop st level p (offset + 1))
      else Some (Inr (target, offset)))"

text \<open>\<^verbatim>\<open>Nonlocals.__call__\<close>\<close>

definition nls_call :: "state \<Rightarrow> nat \<Rightarrow> pyval \<Rightarrow> ((error + nat) \<times> state) option" where
  "nls_call st self level =
     (if \<not> isinstance_int level \<or> int_of level < 0 then Some (Inl ValueError, st)
      else
        (case nls_call_loop st (int_of level) (nls_obj (nls st self)) 0 of
           None \<Rightarrow> None
         | Some (Inl e) \<Rightarrow> Some (Inl e, st)
         | Some (Inr (target, offset)) \<Rightarrow>
             if offset \<noteq> int_of level then Some (Inl ValueError, st)
             else (case Nonlocals st target (nls_listener (nls st self)) of
                     (new, st') \<Rightarrow> Some (Inr new, st'))))"

text \<open>The loop of \<^verbatim>\<open>Nonlocals.__getitem__\<close>\<close>

partial_function (option) nls_getitem_loop ::
  "state \<Rightarrow> nat \<Rightarrow> string \<Rightarrow> pyval \<Rightarrow> ((error + pyval) \<times> state) option" where
  "nls_getitem_loop st self name parent =
     (if parent \<noteq> VNone then
        (case getattr st parent name of
           None \<Rightarrow>
             (case getattr st parent ''parent'' of
                None \<Rightarrow> Some (Inl AttributeError, st)
              | Some p \<Rightarrow> nls_getitem_loop st self name p)
         | Some val \<Rightarrow>
             (let l = nls_listener (nls st self) in
              Some (Inr val, if l \<noteq> VNone then dynamic_load st l parent name val else st)))
      else Some (Inl (KeyError name), st))"

text \<open>\<^verbatim>\<open>Nonlocals.__getitem__\<close>\<close>

definition nls_getitem ::
  "state \<Rightarrow> nat \<Rightarrow> string \<Rightarrow> ((error + pyval) \<times> state) option" where
  "nls_getitem st self name = nls_getitem_loop st self name (nls_obj (nls st self))"

text \<open>The loop of \<^verbatim>\<open>Nonlocals.__setitem__\<close>\<close>

partial_function (option) nls_setitem_loop ::
  "state \<Rightarrow> string \<Rightarrow> pyval \<Rightarrow> pyval \<Rightarrow> ((error + unit) \<times> state) option" where
  "nls_setitem_loop st name val parent =
     (if parent \<noteq> VNone then
        (case setattr st parent name val of
           Some st' \<Rightarrow> Some (Inr (), st')
         | None \<Rightarrow>
             (case getattr st parent ''parent'' of
                None \<Rightarrow> Some (Inl AttributeError, st)
              | Some p \<Rightarrow> nls_setitem_loop st name val p))
      else Some (Inl (KeyError name), st))"

text \<open>\<^verbatim>\<open>Nonlocals.__setitem__\<close>\<close>

definition nls_setitem ::
  "state \<Rightarrow> nat \<Rightarrow> string \<Rightarrow> pyval \<Rightarrow> ((error + unit) \<times> state) option" where
  "nls_setitem st self name val = nls_setitem_loop st name val (nls_obj (nls st self))"

text \<open>\<^verbatim>\<open>self.__dict__[name] = value\<close> for the two names the instance dict holds.\<close>

definition dict_store :: "state \<Rightarrow> nat \<Rightarrow> string \<Rightarrow> pyval \<Rightarrow> state" where
  "dict_store st self name val =
     st\<lparr>nls := (nls st)(self :=
          (if name = ''_nls_obj'' then (nls st self)\<lparr>nls_obj := val\<rparr>
           else (nls st self)\<lparr>nls_listener := val\<rparr>))\<rparr>"

text \<open>
  \<^verbatim>\<open>Nonlocals.__getattr__\<close>, which Python calls for the names that the instance
  dict and the class do not hold, and \<^verbatim>\<open>Nonlocals.__repr__\<close>.  They call each other:
  on KeyError \<^verbatim>\<open>__getattr__\<close> formats \<^verbatim>\<open>self\<close> into its message, which runs
  \<^verbatim>\<open>__repr__\<close>; \<^verbatim>\<open>__repr__\<close> reads \<^verbatim>\<open>self._obj\<close>, a name that neither the instance
  dict nor the class holds, which runs \<^verbatim>\<open>__getattr__\<close> with \<^verbatim>\<open>'_obj'\<close>.  When no
  owner has an attribute \<^verbatim>\<open>_obj\<close> this goes on until the interpreter's recursion
  limit raises RuntimeError; the first argument is the number of nested
  \<^verbatim>\<open>__repr__\<close> calls the limit still allows.  When an owner has it, the lookup
  notifies the listener, and the message, whose text is not modelled, is raised as
  AttributeError.
\<close>

fun nls_getattr ::
  "nat \<Rightarrow> state \<Rightarrow> nat \<Rightarrow> string \<Rightarrow> ((error + pyval) \<times> state) option"
and nls_repr ::
  "nat \<Rightarrow> state \<Rightarrow> nat \<Rightarrow> ((error + unit) \<times> state) option" where
  "nls_getattr d st self name =
     (case nls_getitem st self name of
        None \<Rightarrow> None
      | Some (Inl (KeyError k), st') \<Rightarrow>
          (case nls_repr d st' self of
             None \<Rightarrow> None
           | Some (Inl e, st'') \<Rightarrow> Some (Inl e, st'')
           | Some (Inr msg, st'') \<Rightarrow> Some (Inl AttributeError, st''))
      | Some r \<Rightarrow> Some r)"
| "nls_repr 0 st self = Some (Inl RuntimeError, st)"
| "nls_repr (Suc d) st self =
     (case nls_getattr d st self ''_obj'' of
        None \<Rightarrow> None
      | Some (Inl e, st') \<Rightarrow> Some (Inl e, st')
      | Some (Inr v, st') \<Rightarrow> Some (Inr (), st'))"

text \<open>
  \<^verbatim>\<open>Nonlocals.__setattr__\<close>.  On KeyError it formats \<^verbatim>\<open>self\<close> into its message as
  \<^verbatim>\<open>__getattr__\<close> does; the first argument is again the number of nested
  \<^verbatim>\<open>__repr__\<close> calls the recursion limit allows.
\<close>

definition nls_setattr ::
  "nat \<Rightarrow> state \<Rightarrow> nat \<Rightarrow> string \<Rightarrow> pyval \<Rightarrow> ((error + unit) \<times> state) option" where
  "nls_setattr d st self name val =
     (if name = ''_nls_obj'' \<or> name = ''_nls_listener'' then
        Some (Inr (), dict_store st self name val)
      else
        (case nls_setitem st self name val of
           None \<Rightarrow> None
         | Some (Inl (KeyError k), st') \<Rightarrow>
             (case nls_repr d st' self of
                None \<Rightarrow> None
              | Some (Inl e, st'') \<Rightarrow> Some (Inl e, st'')
              | Some (Inr msg, st'') \<Rightarrow> Some (Inl AttributeError, st''))
         | Some r \<Rightarrow> Some r))"

text \<open>
  \<^verbatim>\<open>Nonlocals.__contains__\<close>.  The two assignments to \<^verbatim>\<open>self._nls_listener\<close> go
  through \<^verbatim>\<open>__setattr__\<close>, which stores them in the instance dict.
\<close>

definition nls_contains ::
  "state \<Rightarrow> nat \<Rightarrow> pyval \<Rightarrow> ((error + bool) \<times> state) option" where
  "nls_contains st self name =
     (case name of
        VStr n \<Rightarrow>
          (let l = nls_listener (nls st self);
               st1 = dict_store st self ''_nls_listener'' VNone
           in case nls_getitem st1 self n of
                None \<Rightarrow> None
              | Some (Inl (KeyError k), st') \<Rightarrow>
                  Some (Inr False, dict_store st' self ''_nls_listener'' l)
              | Some (Inl e, st') \<Rightarrow> Some (Inl e, dict_store st' self ''_nls_listener'' l)
              | Some (Inr v, st') \<Rightarrow> Some (Inr True, dict_store st' self ''_nls_listener'' l))
      | _ \<Rightarrow> Some (Inr False, st))"

subsection \<open>The owner hierarchy\<close>

text \<open>
  \<open>reaches st p xs q\<close>: starting at \<open>p\<close> and following \<^verbatim>\<open>parent\<close>, the walk visits
  the objects \<open>xs\<close> in this order and then stands at \<open>q\<close>.  \<open>chain st p xs\<close>: the
  parent chain of \<open>p\<close> is \<open>xs\<close> and ends at a root, whose parent is \<^verbatim>\<open>None\<close>.
\<close>

fun reaches :: "state \<Rightarrow> pyval \<Rightarrow> pyval list \<Rightarrow> pyval \<Rightarrow> bool" where
  "reaches st p [] q = (p = q)"
| "reaches st p (a # as) q =
     (p = a \<and> a \<noteq> VNone \<and>
      (case getattr st a ''parent'' of None \<Rightarrow> False | Some r \<Rightarrow> reaches st r as q))"

definition chain :: "state \<Rightarrow> pyval \<Rightarrow> pyval list \<Rightarrow> bool" where
  "chain st p xs = reaches st p xs VNone"

text \<open>
  The precedence of the four mappings as the specification words it: the value of
  the first mapping, in the given order, that binds the name.
\<close>

fun spec_first_bound :: "(string \<rightharpoonup> pyval) list \<Rightarrow> string \<Rightarrow> pyval option" where
  "spec_first_bound [] name = None"
| "spec_first_bound (m # ms) name =
     (case m name of Some v \<Rightarrow> Some v | None \<Rightarrow> spec_first_bound ms name)"

subsection \<open>An example store\<close>

text \<open>
  Three owners, Leaf (\<open>VRef 1\<close>) below Mid (\<open>VRef 2\<close>) below Root (\<open>VRef 3\<close>).
  Mid and Root both have the attribute \<^verbatim>\<open>c\<close> and accept a write to \<^verbatim>\<open>z\<close>, and Mid
  has an attribute \<^verbatim>\<open>x\<close>, a name that all four dicts bind too; Leaf has
  no attribute of its own and accepts no write.  Dict 0 serves as overrides, dict 1
  as identifiers, dict 2 as globals and dict 3 as the builtins.  There is one Nonlocals
  instance, anchored at Leaf, and one scope, both with the listener \<open>VRef 9\<close>.
\<close>

definition ex_objs :: "pyval \<Rightarrow> pyobj" where
  "ex_objs =
     (\<lambda>v. \<lparr>attrs = Map.empty, settable = {}\<rparr>)
       (VRef 1 := \<lparr>attrs = [''parent'' \<mapsto> VRef 2], settable = {}\<rparr>,
        VRef 2 := \<lparr>attrs = [''parent'' \<mapsto> VRef 3, ''c'' \<mapsto> VInt 3, ''x'' \<mapsto> VInt 14],
                   settable = {''z''}\<rparr>,
        VRef 3 := \<lparr>attrs = [''parent'' \<mapsto> VNone, ''c'' \<mapsto> VInt 30], settable = {''z''}\<rparr>)"

definition ex_dicts :: "nat \<Rightarrow> (string \<rightharpoonup> pyval)" where
  "ex_dicts =
     (\<lambda>d. Map.empty)
       (0 := [''x'' \<mapsto> VInt 10],
        1 := [''a'' \<mapsto> VInt 1, ''x'' \<mapsto> VInt 11],
        2 := [''b'' \<mapsto> VInt 2, ''x'' \<mapsto> VInt 12, ''__builtins__'' \<mapsto> VDict 3],
        3 := [''len'' \<mapsto> VRef 7, ''x'' \<mapsto> VInt 13])"

definition ex_state :: state where
  "ex_state =
     \<lparr>objs = ex_objs, dicts = ex_dicts,
      nls = (\<lambda>i. \<lparr>nls_obj = VRef 1, nls_listener = VRef 9\<rparr>),
      nls_count = 1, trace = []\<rparr>"

definition ex_scope :: scope where
  "ex_scope = \<lparr>obj = VRef 1, identifiers = 1, overrides = 0, f_globals = 2, listener = VRef 9\<rparr>"

text \<open>The same store with the only Nonlocals instance anchored at Root.\<close>

definition ex_state_root :: state where
  "ex_state_root = ex_state\<lparr>nls := (\<lambda>i. \<lparr>nls_obj = VRef 3, nls_listener = VRef 9\<rparr>)\<rparr>"

section \<open>Properties of the loops\<close>

text \<open>
  The loops are partial functions: each fact below is proved by unfolding the loop once
  along a parent chain, or by the fixed-point induction of the loop when no chain is
  assumed.
\<close>

lemma dict_store_restore:
  "dict_store (dict_store st self ''_nls_listener'' v) self ''_nls_listener'' (nls_listener (nls st self)) = st"
  by (simp add: dict_store_def)

lemma scope_walk_quiet:
  assumes "scope_walk s st name p = Some (r, st')" and "listener s = VNone"
  shows "st' = st"
  using assms
proof (induct s st name p "(r, st')" rule: scope_walk.raw_induct[rotated 1, consumes 1])
  case (1 f s st name p)
  then show ?case by (auto split: if_splits option.splits)
qed

lemma nls_getitem_loop_quiet:
  assumes "nls_getitem_loop st self name p = Some (r, st')" and "nls_listener (nls st self) = VNone"
  shows "st' = st"
  using assms
proof (induct st self name p "(r, st')" rule: nls_getitem_loop.raw_induct[rotated 1, consumes 1])
  case (1 f st self name p)
  then show ?case by (auto split: if_splits option.splits)
qed

lemma nls_getitem_loop_sim:
  assumes "nls_getitem_loop st self name p = Some (r, st')" and "objs st2 = objs st"
  shows "\<exists>st2'. nls_getitem_loop st2 self2 name p = Some (r, st2')"
  using assms
proof (induct st self name p "(r, st')" rule: nls_getitem_loop.raw_induct[rotated 1, consumes 1])
  case (1 f st self name p)
  then show ?case
    by (subst nls_getitem_loop.simps) (auto split: if_splits option.splits simp: Let_def getattr_def)
qed

lemma nls_getitem_loop_cong:
  assumes "nls_getitem_loop st a name p = Some y" and "nls st a = nls st b"
  shows "nls_getitem_loop st b name p = Some y"
  using assms
proof (induct rule: nls_getitem_loop.raw_induct[rotated 1, consumes 1])
  case (1 f st self name p y)
  then show ?case
    by (subst nls_getitem_loop.simps) (auto split: if_splits option.splits simp: Let_def)
qed

lemma nls_call_loop_total:
  "offset \<le> level \<Longrightarrow> \<exists>r. nls_call_loop st level target offset = Some r"
proof (induction "nat (level - offset)" arbitrary: target offset)
  case 0
  then show ?case by (subst nls_call_loop.simps) simp
next
  case (Suc k)
  then show ?case by (subst nls_call_loop.simps) (auto split: option.splits)
qed

lemma nls_call_loop_reaches:
  "reaches st p pre q \<Longrightarrow> level = offset + int (length pre) \<Longrightarrow>
   nls_call_loop st level p offset = Some (Inr (q, level))"
proof (induction pre arbitrary: p offset)
  case Nil
  then show ?case by (subst nls_call_loop.simps) simp
next
  case (Cons x xs)
  then show ?case by (subst nls_call_loop.simps) (auto split: option.splits)
qed

lemma nls_call_loop_short:
  "chain st p xs \<Longrightarrow> offset + int (length xs) < level \<Longrightarrow>
   nls_call_loop st level p offset = Some (Inr (VNone, offset + int (length xs)))"
  unfolding chain_def
proof (induction xs arbitrary: p offset)
  case Nil
  then show ?case by (subst nls_call_loop.simps) simp
next
  case (Cons x xs)
  then show ?case by (subst nls_call_loop.simps) (auto split: option.splits)
qed

lemma nls_setitem_loop_found:
  "reaches st p pre a \<Longrightarrow> a \<noteq> VNone \<Longrightarrow> \<forall>x\<in>set pre. setattr st x name v = None \<Longrightarrow>
   setattr st a name v = Some st' \<Longrightarrow>
   nls_setitem_loop st name v p = Some (Inr (), st')"
proof (induction pre arbitrary: p)
  case Nil
  then show ?case by (subst nls_setitem_loop.simps) simp
next
  case (Cons x xs)
  then show ?case by (subst nls_setitem_loop.simps) (auto split: option.splits)
qed

lemma nls_setitem_loop_exhausted:
  "chain st p xs \<Longrightarrow> \<forall>x\<in>set xs. name \<notin> settable (objs st x) \<Longrightarrow>
   nls_setitem_loop st name v p = Some (Inl (KeyError name), st)"
  unfolding chain_def
proof (induction xs arbitrary: p)
  case Nil
  then show ?case by (subst nls_setitem_loop.simps) simp
next
  case (Cons x xs)
  then show ?case by (subst nls_setitem_loop.simps) (auto split: option.splits simp: setattr_def)
qed

lemma nls_getitem_loop_found:
  "reaches st p pre a \<Longrightarrow> a \<noteq> VNone \<Longrightarrow> \<forall>x\<in>set pre. getattr st x name = None \<Longrightarrow>
   getattr st a name = Some v \<Longrightarrow>
   nls_getitem_loop st self name p =
     Some (Inr v, if nls_listener (nls st self) \<noteq> VNone
                  then dynamic_load st (nls_listener (nls st self)) a name v else st)"
proof (induction pre arbitrary: p)
  case Nil
  then show ?case by (subst nls_getitem_loop.simps) simp
next
  case (Cons x xs)
  then show ?case by (subst nls_getitem_loop.simps) (auto split: option.splits)
qed

lemma nls_getitem_loop_exhausted:
  "chain st p xs \<Longrightarrow> \<forall>x\<in>set xs. getattr st x name = None \<Longrightarrow>
   nls_getitem_loop st self name p = Some (Inl (KeyError name), st)"
  unfolding chain_def
proof (induction xs arbitrary: p)
  case Nil
  then show ?case by (subst nls_getitem_loop.simps) simp
next
  case (Cons x xs)
  then show ?case by (subst nls_getitem_loop.simps) (auto split: option.splits)
qed

lemma scope_walk_found:
  "reaches st p pre a \<Longrightarrow> a \<noteq> VNone \<Longrightarrow> \<forall>x\<in>set pre. getattr st x name = None \<Longrightarrow>
   getattr st a name = Some v \<Longrightarrow>
   scope_walk s st name p =
     Some (Inr v, if listener s \<noteq> VNone then dynamic_load st (listener s) a name v else st)"
proof (induction pre arbitrary: p)
  case Nil
  then show ?case by (subst scope_walk.simps) simp
next
  case (Cons x xs)
  then show ?case by (subst scope_walk.simps) (auto split: option.splits)
qed

lemma scope_walk_exhausted:
  "chain st p xs \<Longrightarrow> \<forall>x\<in>set xs. getattr st x name = None \<Longrightarrow>
   scope_walk s st name p = Some (Inl (KeyError name), st)"
  unfolding chain_def
proof (induction xs arbitrary: p)
  case Nil
  then show ?case by (subst scope_walk.simps) simp
next
  case (Cons x xs)
  then show ?case by (subst scope_walk.simps) (auto split: option.splits)
qed

lemma walk_same_bwd:
  assumes "nls_getitem_loop st self name p = Some y"
      and "nls_listener (nls st self) = listener s"
  shows "scope_walk s st name p = Some y"
  using assms
proof (induct rule: nls_getitem_loop.raw_induct[rotated 1, consumes 1])
  case (1 f st self name p y)
  then show ?case
    by (subst scope_walk.simps) (auto split: if_splits option.splits simp: Let_def)
qed

lemma walk_same_fwd:
  assumes "scope_walk s st name p = Some y"
      and "nls_listener (nls st self) = listener s"
  shows "nls_getitem_loop st self name p = Some y"
  using assms
proof (induct rule: scope_walk.raw_induct[rotated 1, consumes 1])
  case (1 f s st name p y)
  then show ?case
    by (subst nls_getitem_loop.simps) (auto split: if_splits option.splits simp: Let_def)
qed

lemma walk_same:
  assumes "nls_listener (nls st self) = listener s"
  shows "scope_walk s st name p = nls_getitem_loop st self name p"
proof (cases "scope_walk s st name p")
  case None
  then show ?thesis using walk_same_bwd [OF _ assms, of name p] by (cases "nls_getitem_loop st self name p") auto
next
  case (Some y)
  then show ?thesis using walk_same_fwd [OF _ assms] by simp
qed

lemma scope_getitem_tiers:
  assumes "dicts st (f_globals s) ''__builtins__'' = Some (VDict b)"
  shows "scope_getitem s st name =
     (case spec_first_bound
             [dicts st (overrides s), dicts st (identifiers s), dicts st (f_globals s), dicts st b]
             name of
        Some v \<Rightarrow> Some (Inr v, st)
      | None \<Rightarrow> scope_walk s st name (obj s))"
  using assms
  by (auto simp: scope_getitem_def Let_def dict_contains_def dict_getitem_def
                 py_contains_def py_getitem_def split: option.splits)

lemmas ex_defs = ex_state_def ex_scope_def ex_dicts_def ex_objs_def ex_state_root_def

section \<open>The Scope Resolver\<close>

lemma scope_getitem_first_three:
  assumes "spec_first_bound
             [dicts st (overrides s), dicts st (identifiers s), dicts st (f_globals s)] name = Some v"
  shows "scope_getitem s st name = Some (Inr v, st)"
  using assms
  by (auto simp: scope_getitem_def Let_def dict_contains_def dict_getitem_def
           split: option.splits)

text \<open>
  C1.  \<^verbatim>\<open>DynamicScope.__getitem__\<close> returns the value of the first of overrides,
  identifiers and globals, in this order, that binds the name, and leaves the store as
  it was, whatever the later tiers and the owners hold.  Once globals holds a builtins
  dict under \<^verbatim>\<open>'__builtins__'\<close>, as the constructor asks, the builtins come fourth
  in this order.  Only when none of the four binds the name does the lookup fall back
  to the owners: it returns the attribute of the first owner on the parent chain that
  has one, after notifying the listener with that owner, and raises KeyError when the
  chain ends at a root without any owner having it.
\<close>

theorem resolve_precedence:
  "(spec_first_bound
      [dicts st (overrides s), dicts st (identifiers s), dicts st (f_globals s)] name = Some v \<longrightarrow>
    scope_getitem s st name = Some (Inr v, st)) \<and>
   (dicts st (f_globals s) ''__builtins__'' = Some (VDict b) \<and>
    spec_first_bound
      [dicts st (overrides s), dicts st (identifiers s), dicts st (f_globals s), dicts st b]
      name = Some v \<longrightarrow>
    scope_getitem s st name = Some (Inr v, st)) \<and>
   (dicts st (f_globals s) ''__builtins__'' = Some (VDict b) \<and>
    spec_first_bound
      [dicts st (overrides s), dicts st (identifiers s), dicts st (f_globals s), dicts st b]
      name = None \<and>
    reaches st (obj s) pre a \<and> a \<noteq> VNone \<and> (\<forall>x\<in>set pre. getattr st x name = None) \<and>
    getattr st a name = Some w \<longrightarrow>
    scope_getitem s st name =
      Some (Inr w,
            if listener s = VNone then st
            else st\<lparr>trace := trace st @ [(listener s, a, name, w)]\<rparr>)) \<and>
   (dicts st (f_globals s) ''__builtins__'' = Some (VDict b) \<and>
    spec_first_bound
      [dicts st (overrides s), dicts st (identifiers s), dicts st (f_globals s), dicts st b]
      name = None \<and>
    chain st (obj s) xs \<and> (\<forall>x\<in>set xs. getattr st x name = None) \<longrightarrow>
    scope_getitem s st name = Some (Inl (KeyError name), st))"
proof (intro conjI impI; (elim conjE)?)
  assume "spec_first_bound
      [dicts st (overrides s), dicts st (identifiers s), dicts st (f_globals s)] name = Some v"
  then show "scope_getitem s st name = Some (Inr v, st)"
    by (rule scope_getitem_first_three)
next
  assume "dicts st (f_globals s) ''__builtins__'' = Some (VDict b)"
    "spec_first_bound
      [dicts st (overrides s), dicts st (identifiers s), dicts st (f_globals s), dicts st b]
      name = Some v"
  then show "scope_getitem s st name = Some (Inr v, st)"
    by (simp add: scope_getitem_tiers)
next
  assume wf: "dicts st (f_globals s) ''__builtins__'' = Some (VDict b)"
    and miss: "spec_first_bound
      [dicts st (overrides s), dicts st (identifiers s), dicts st (f_globals s), dicts st b]
      name = None"
    and walk: "reaches st (obj s) pre a" "a \<noteq> VNone" "\<forall>x\<in>set pre. getattr st x name = None"
      "getattr st a name = Some w"
  have "scope_getitem s st name = scope_walk s st name (obj s)"
    using miss by (simp add: scope_getitem_tiers [OF wf])
  then show "scope_getitem s st name =
      Some (Inr w,
            if listener s = VNone then st
            else st\<lparr>trace := trace st @ [(listener s, a, name, w)]\<rparr>)"
    using scope_walk_found [OF walk, of s] by (simp add: dynamic_load_def)
next
  assume wf: "dicts st (f_globals s) ''__builtins__'' = Some (VDict b)"
    and miss: "spec_first_bound
      [dicts st (overrides s), dicts st (identifiers s), dicts st (f_globals s), dicts st b]
      name = None"
    and ex: "chain st (obj s) xs" "\<forall>x\<in>set xs. getattr st x name = None"
  have "scope_getitem s st name = scope_walk s st name (obj s)"
    using miss by (simp add: scope_getitem_tiers [OF wf])
  then show "scope_getitem s st name = Some (Inl (KeyError name), st)"
    using scope_walk_exhausted [OF ex, of s] by simp
qed

text \<open>
  In the example, \<^verbatim>\<open>x\<close> is bound in all four mappings and is an attribute of Mid, and
  the overrides value wins; \<^verbatim>\<open>a\<close>, \<^verbatim>\<open>b\<close> and \<^verbatim>\<open>len\<close> come from identifiers, globals
  and builtins; \<^verbatim>\<open>c\<close>, which no mapping binds, comes from Mid; \<^verbatim>\<open>missing\<close> is bound
  nowhere.
\<close>

theorem resolve_precedence_witness:
  "dicts ex_state (f_globals ex_scope) ''__builtins__'' = Some (VDict 3) \<and>
   dicts ex_state (overrides ex_scope) ''x'' = Some (VInt 10) \<and>
   dicts ex_state (identifiers ex_scope) ''x'' = Some (VInt 11) \<and>
   dicts ex_state (f_globals ex_scope) ''x'' = Some (VInt 12) \<and>
   dicts ex_state 3 ''x'' = Some (VInt 13) \<and>
   getattr ex_state (VRef 2) ''x'' = Some (VInt 14) \<and>
   scope_getitem ex_scope ex_state ''x'' = Some (Inr (VInt 10), ex_state) \<and>
   scope_getitem ex_scope ex_state ''a'' = Some (Inr (VInt 1), ex_state) \<and>
   scope_getitem ex_scope ex_state ''b'' = Some (Inr (VInt 2), ex_state) \<and>
   scope_getitem ex_scope ex_state ''len'' = Some (Inr (VRef 7), ex_state) \<and>
   reaches ex_state (obj ex_scope) [VRef 1] (VRef 2) \<and>
   getattr ex_state (VRef 1) ''c'' = None \<and>
   getattr ex_state (VRef 2) ''c'' = Some (VInt 3) \<and>
   scope_getitem ex_scope ex_state ''c'' =
     Some (Inr (VInt 3), ex_state\<lparr>trace := [(VRef 9, VRef 2, ''c'', VInt 3)]\<rparr>) \<and>
   chain ex_state (obj ex_scope) [VRef 1, VRef 2, VRef 3] \<and>
   scope_getitem ex_scope ex_state ''missing'' = Some (Inl (KeyError ''missing''), ex_state)"
proof -
  let ?four = "\<lambda>n. spec_first_bound
      [dicts ex_state (overrides ex_scope), dicts ex_state (identifiers ex_scope),
       dicts ex_state (f_globals ex_scope), dicts ex_state 3] n"
  have wf: "dicts ex_state (f_globals ex_scope) ''__builtins__'' = Some (VDict 3)"
    by (simp add: ex_defs)
  have x: "dicts ex_state (overrides ex_scope) ''x'' = Some (VInt 10)"
    "dicts ex_state (identifiers ex_scope) ''x'' = Some (VInt 11)"
    "dicts ex_state (f_globals ex_scope) ''x'' = Some (VInt 12)"
    "dicts ex_state 3 ''x'' = Some (VInt 13)"
    "getattr ex_state (VRef 2) ''x'' = Some (VInt 14)"
    by (simp_all add: ex_defs getattr_def)
  have three: "spec_first_bound
      [dicts ex_state (overrides ex_scope), dicts ex_state (identifiers ex_scope),
       dicts ex_state (f_globals ex_scope)] ''x'' = Some (VInt 10)"
    "spec_first_bound
      [dicts ex_state (overrides ex_scope), dicts ex_state (identifiers ex_scope),
       dicts ex_state (f_globals ex_scope)] ''a'' = Some (VInt 1)"
    "spec_first_bound
      [dicts ex_state (overrides ex_scope), dicts ex_state (identifiers ex_scope),
       dicts ex_state (f_globals ex_scope)] ''b'' = Some (VInt 2)"
    by (simp_all add: ex_defs)
  have four: "?four ''len'' = Some (VRef 7)" "?four ''c'' = None" "?four ''missing'' = None"
    by (simp_all add: ex_defs)
  have path: "reaches ex_state (obj ex_scope) [VRef 1] (VRef 2)"
    and ch: "chain ex_state (obj ex_scope) [VRef 1, VRef 2, VRef 3]"
    by (simp_all add: chain_def ex_defs getattr_def)
  have c: "getattr ex_state (VRef 1) ''c'' = None" "getattr ex_state (VRef 2) ''c'' = Some (VInt 3)"
    "\<forall>x\<in>set [VRef 1]. getattr ex_state x ''c'' = None"
    "\<forall>x\<in>set [VRef 1, VRef 2, VRef 3]. getattr ex_state x ''missing'' = None"
    by (simp_all add: ex_defs getattr_def)
  have l: "listener ex_scope = VRef 9" "trace ex_state = []"
    by (simp_all add: ex_defs)
  have 1: "scope_getitem ex_scope ex_state ''x'' = Some (Inr (VInt 10), ex_state)"
    "scope_getitem ex_scope ex_state ''a'' = Some (Inr (VInt 1), ex_state)"
    "scope_getitem ex_scope ex_state ''b'' = Some (Inr (VInt 2), ex_state)"
    using three resolve_precedence [of ex_state ex_scope "''x''" "VInt 10"]
      resolve_precedence [of ex_state ex_scope "''a''" "VInt 1"]
      resolve_precedence [of ex_state ex_scope "''b''" "VInt 2"]
    by blast+
  have 2: "scope_getitem ex_scope ex_state ''len'' = Some (Inr (VRef 7), ex_state)"
    using wf four(1) resolve_precedence [of ex_state ex_scope "''len''" "VRef 7" 3] by blast
  have 3: "scope_getitem ex_scope ex_state ''c'' =
     Some (Inr (VInt 3), ex_state\<lparr>trace := [(VRef 9, VRef 2, ''c'', VInt 3)]\<rparr>)"
    using wf four(2) path c l
      resolve_precedence [of ex_state ex_scope "''c''" "VInt 3" 3 "[VRef 1]" "VRef 2" "VInt 3"]
    by simp
  have 4: "scope_getitem ex_scope ex_state ''missing'' = Some (Inl (KeyError ''missing''), ex_state)"
    using wf four(3) ch c(4)
      resolve_precedence [where st = ex_state and s = ex_scope and name = "''missing''"
        and b = 3 and xs = "[VRef 1, VRef 2, VRef 3]"]
    by blast
  show ?thesis using wf x 1 2 path c(1,2) 3 ch 4 by blast
qed

text \<open>
  C3.  A name bound in overrides, identifiers, globals or builtins is returned with the
  store, and so the trace of listener calls, unchanged.  A name that none of them binds
  and that is first found at the owner \<open>a\<close> of the parent chain is returned after one
  call \<^verbatim>\<open>dynamic_load(a, name, value)\<close> of the listener, if there is one: the trace
  grows by exactly this event.
\<close>

theorem resolve_observer_discipline:
  "(spec_first_bound
      [dicts st (overrides s), dicts st (identifiers s), dicts st (f_globals s)] name = Some v \<longrightarrow>
    scope_getitem s st name = Some (Inr v, st)) \<and>
   (dicts st (f_globals s) ''__builtins__'' = Some (VDict b) \<and>
    spec_first_bound
      [dicts st (overrides s), dicts st (identifiers s), dicts st (f_globals s), dicts st b]
      name = Some v \<longrightarrow>
    scope_getitem s st name = Some (Inr v, st)) \<and>
   (dicts st (f_globals s) ''__builtins__'' = Some (VDict b) \<and>
    spec_first_bound
      [dicts st (overrides s), dicts st (identifiers s), dicts st (f_globals s), dicts st b]
      name = None \<and>
    reaches st (obj s) pre a \<and> a \<noteq> VNone \<and> (\<forall>x\<in>set pre. getattr st x name = None) \<and>
    getattr st a name = Some w \<longrightarrow>
    scope_getitem s st name =
      Some (Inr w,
            if listener s = VNone then st
            else st\<lparr>trace := trace st @ [(listener s, a, name, w)]\<rparr>))"
proof (intro conjI impI; (elim conjE)?)
  assume "spec_first_bound
      [dicts st (overrides s), dicts st (identifiers s), dicts st (f_globals s)] name = Some v"
  then show "scope_getitem s st name = Some (Inr v, st)"
    by (rule scope_getitem_first_three)
next
  assume "dicts st (f_globals s) ''__builtins__'' = Some (VDict b)"
    "spec_first_bound
      [dicts st (overrides s), dicts st (identifiers s), dicts st (f_globals s), dicts st b]
      name = Some v"
  then show "scope_getitem s st name = Some (Inr v, st)"
    by (simp add: scope_getitem_tiers)
next
  assume wf: "dicts st (f_globals s) ''__builtins__'' = Some (VDict b)"
    and miss: "spec_first_bound
      [dicts st (overrides s), dicts st (identifiers s), dicts st (f_globals s), dicts st b]
      name = None"
    and walk: "reaches st (obj s) pre a" "a \<noteq> VNone" "\<forall>x\<in>set pre. getattr st x name = None"
      "getattr st a name = Some w"
  have "scope_getitem s st name = scope_walk s st name (obj s)"
    using miss by (simp add: scope_getitem_tiers [OF wf])
  also have "\<dots> = Some (Inr w, if listener s \<noteq> VNone
                                 then dynamic_load st (listener s) a name w else st)"
    by (rule scope_walk_found [OF walk])
  finally show "scope_getitem s st name =
      Some (Inr w,
            if listener s = VNone then st
            else st\<lparr>trace := trace st @ [(listener s, a, name, w)]\<rparr>)"
    by (simp add: dynamic_load_def)
qed

theorem resolve_observer_discipline_witness:
  "dicts ex_state (f_globals ex_scope) ''__builtins__'' = Some (VDict 3) \<and>
   spec_first_bound
     [dicts ex_state (overrides ex_scope), dicts ex_state (identifiers ex_scope),
      dicts ex_state (f_globals ex_scope), dicts ex_state 3] ''b'' = Some (VInt 2) \<and>
   scope_getitem ex_scope ex_state ''b'' = Some (Inr (VInt 2), ex_state) \<and>
   spec_first_bound
     [dicts ex_state (overrides ex_scope), dicts ex_state (identifiers ex_scope),
      dicts ex_state (f_globals ex_scope), dicts ex_state 3] ''c'' = None \<and>
   reaches ex_state (obj ex_scope) [VRef 1] (VRef 2) \<and>
   getattr ex_state (VRef 1) ''c'' = None \<and>
   getattr ex_state (VRef 2) ''c'' = Some (VInt 3) \<and>
   listener ex_scope \<noteq> VNone \<and>
   scope_getitem ex_scope ex_state ''c'' =
     Some (Inr (VInt 3), ex_state\<lparr>trace := [(VRef 9, VRef 2, ''c'', VInt 3)]\<rparr>)"
proof -
  have wf: "dicts ex_state (f_globals ex_scope) ''__builtins__'' = Some (VDict 3)"
    by (simp add: ex_defs)
  have hit: "spec_first_bound
     [dicts ex_state (overrides ex_scope), dicts ex_state (identifiers ex_scope),
      dicts ex_state (f_globals ex_scope), dicts ex_state 3] ''b'' = Some (VInt 2)"
    by (simp add: ex_defs)
  have miss: "spec_first_bound
     [dicts ex_state (overrides ex_scope), dicts ex_state (identifiers ex_scope),
      dicts ex_state (f_globals ex_scope), dicts ex_state 3] ''c'' = None"
    by (simp add: ex_defs)
  have path: "reaches ex_state (obj ex_scope) [VRef 1] (VRef 2)"
    by (simp add: ex_defs getattr_def)
  have pre: "\<forall>x\<in>set [VRef 1]. getattr ex_state x ''c'' = None"
    by (simp add: ex_defs getattr_def)
  have at: "getattr ex_state (VRef 2) ''c'' = Some (VInt 3)"
    by (simp add: ex_defs getattr_def)
  have l: "listener ex_scope \<noteq> VNone" "listener ex_scope = VRef 9" "trace ex_state = []"
    by (simp_all add: ex_defs)
  from resolve_observer_discipline [of ex_state ex_scope "''b''" "VInt 2" 3] wf hit
  have 1: "scope_getitem ex_scope ex_state ''b'' = Some (Inr (VInt 2), ex_state)"
    by blast
  from resolve_observer_discipline
         [of ex_state ex_scope "''c''" "VInt 2" 3 "[VRef 1]" "VRef 2" "VInt 3"]
    wf miss path pre at l
  have 2: "scope_getitem ex_scope ex_state ''c'' =
     Some (Inr (VInt 3), ex_state\<lparr>trace := [(VRef 9, VRef 2, ''c'', VInt 3)]\<rparr>)"
    by simp
  have pre1: "getattr ex_state (VRef 1) ''c'' = None"
    by (simp add: ex_defs getattr_def)
  show ?thesis using wf hit miss path pre1 at l 1 2 by blast
qed

text \<open>
  C5.  For a name that none of the four mappings binds, \<^verbatim>\<open>DynamicScope.__getitem__\<close>
  and \<^verbatim>\<open>Nonlocals.__getitem__\<close> of an instance with the same owner and the same listener
  agree: the same value or error, the same store and the same listener trace afterwards
  (and neither returns when the other does not).
\<close>

theorem walk_shared_with_accessor:
  assumes "dicts st (f_globals s) ''__builtins__'' = Some (VDict b)"
      and "spec_first_bound
             [dicts st (overrides s), dicts st (identifiers s), dicts st (f_globals s), dicts st b]
             name = None"
      and "nls_obj (nls st self) = obj s"
      and "nls_listener (nls st self) = listener s"
  shows "scope_getitem s st name = nls_getitem st self name"
proof -
  have "scope_getitem s st name = scope_walk s st name (obj s)"
    using assms(2) by (simp add: scope_getitem_tiers [OF assms(1)])
  also have "\<dots> = nls_getitem_loop st self name (obj s)"
    by (rule walk_same [OF assms(4)])
  finally show ?thesis by (simp add: nls_getitem_def assms(3))
qed

theorem walk_shared_with_accessor_witness:
  "dicts ex_state (f_globals ex_scope) ''__builtins__'' = Some (VDict 3) \<and>
   spec_first_bound
     [dicts ex_state (overrides ex_scope), dicts ex_state (identifiers ex_scope),
      dicts ex_state (f_globals ex_scope), dicts ex_state 3] ''c'' = None \<and>
   nls_obj (nls ex_state 0) = obj ex_scope \<and>
   nls_listener (nls ex_state 0) = listener ex_scope \<and>
   scope_getitem ex_scope ex_state ''c'' = nls_getitem ex_state 0 ''c'' \<and>
   nls_getitem ex_state 0 ''c'' =
     Some (Inr (VInt 3), ex_state\<lparr>trace := [(VRef 9, VRef 2, ''c'', VInt 3)]\<rparr>) \<and>
   scope_getitem ex_scope ex_state ''missing'' = nls_getitem ex_state 0 ''missing'' \<and>
   nls_getitem ex_state 0 ''missing'' = Some (Inl (KeyError ''missing''), ex_state)"
proof -
  have wf: "dicts ex_state (f_globals ex_scope) ''__builtins__'' = Some (VDict 3)"
    by (simp add: ex_defs)
  have miss: "spec_first_bound
     [dicts ex_state (overrides ex_scope), dicts ex_state (identifiers ex_scope),
      dicts ex_state (f_globals ex_scope), dicts ex_state 3] ''c'' = None"
    by (simp add: ex_defs)
  have miss2: "spec_first_bound
     [dicts ex_state (overrides ex_scope), dicts ex_state (identifiers ex_scope),
      dicts ex_state (f_globals ex_scope), dicts ex_state 3] ''missing'' = None"
    by (simp add: ex_defs)
  have same: "nls_obj (nls ex_state 0) = obj ex_scope"
    "nls_listener (nls ex_state 0) = listener ex_scope"
    by (simp_all add: ex_defs)
  have path: "reaches ex_state (VRef 1) [VRef 1] (VRef 2)"
    by (simp add: ex_defs getattr_def)
  have "nls_getitem_loop ex_state 0 ''c'' (VRef 1) =
     Some (Inr (VInt 3), if nls_listener (nls ex_state 0) \<noteq> VNone
                  then dynamic_load ex_state (nls_listener (nls ex_state 0)) (VRef 2) ''c'' (VInt 3) else ex_state)"
    by (rule nls_getitem_loop_found [OF path]) (simp_all add: ex_defs getattr_def)
  then have get: "nls_getitem ex_state 0 ''c'' =
     Some (Inr (VInt 3), ex_state\<lparr>trace := [(VRef 9, VRef 2, ''c'', VInt 3)]\<rparr>)"
    by (simp add: nls_getitem_def dynamic_load_def ex_state_def)
  have ch: "chain ex_state (VRef 1) [VRef 1, VRef 2, VRef 3]"
    by (simp add: chain_def ex_defs getattr_def)
  have "nls_getitem_loop ex_state 0 ''missing'' (VRef 1) = Some (Inl (KeyError ''missing''), ex_state)"
    by (rule nls_getitem_loop_exhausted [OF ch]) (simp add: ex_defs getattr_def)
  then have get2: "nls_getitem ex_state 0 ''missing'' = Some (Inl (KeyError ''missing''), ex_state)"
    by (simp add: nls_getitem_def ex_state_def)
  show ?thesis
    using wf miss same get get2
      walk_shared_with_accessor [OF wf miss same]
      walk_shared_with_accessor [OF wf miss2 same]
    by blast
qed

text \<open>
  C7.  \<^verbatim>\<open>DynamicScope.__setitem__\<close> cannot fail (it has no error result); a lookup of
  the name right after it returns the assigned value; the overrides dict gets the one
  binding and no other dict of the store changes, so identifiers and globals are as
  before whenever they are dicts other than the overrides dict; objects, Nonlocals
  instances and the listener trace are untouched.
\<close>

theorem assign_writes_overrides_only:
  "scope_getitem s (scope_setitem s st name v) name = Some (Inr v, scope_setitem s st name v) \<and>
   dicts (scope_setitem s st name v) (overrides s) = (dicts st (overrides s))(name \<mapsto> v) \<and>
   (\<forall>d. d \<noteq> overrides s \<longrightarrow> dicts (scope_setitem s st name v) d = dicts st d) \<and>
   (identifiers s \<noteq> overrides s \<longrightarrow>
      dicts (scope_setitem s st name v) (identifiers s) = dicts st (identifiers s)) \<and>
   (f_globals s \<noteq> overrides s \<longrightarrow>
      dicts (scope_setitem s st name v) (f_globals s) = dicts st (f_globals s)) \<and>
   objs (scope_setitem s st name v) = objs st \<and>
   nls (scope_setitem s st name v) = nls st \<and>
   trace (scope_setitem s st name v) = trace st"
  by (simp add: scope_setitem_def scope_getitem_def dict_contains_def dict_getitem_def)

theorem assign_writes_overrides_only_witness:
  "identifiers ex_scope \<noteq> overrides ex_scope \<and> f_globals ex_scope \<noteq> overrides ex_scope \<and>
   scope_getitem ex_scope (scope_setitem ex_scope ex_state ''a'' (VInt 5)) ''a'' =
     Some (Inr (VInt 5), scope_setitem ex_scope ex_state ''a'' (VInt 5)) \<and>
   dicts (scope_setitem ex_scope ex_state ''a'' (VInt 5)) (identifiers ex_scope) ''a'' = Some (VInt 1) \<and>
   dicts (scope_setitem ex_scope ex_state ''a'' (VInt 5)) (f_globals ex_scope) = dicts ex_state 2 \<and>
   trace (scope_setitem ex_scope ex_state ''a'' (VInt 5)) = []"
proof -
  have d: "identifiers ex_scope \<noteq> overrides ex_scope" "f_globals ex_scope \<noteq> overrides ex_scope"
    by (simp_all add: ex_defs)
  have e: "dicts ex_state (identifiers ex_scope) ''a'' = Some (VInt 1)"
    "f_globals ex_scope = 2" "trace ex_state = []"
    by (simp_all add: ex_defs)
  show ?thesis
    using d e assign_writes_overrides_only [of ex_scope ex_state "''a''" "VInt 5"]
    by simp
qed

section \<open>The hierarchy walk\<close>

lemma reaches_append:
  "reaches st p (xs @ ys) q = (\<exists>r. reaches st p xs r \<and> reaches st r ys q)"
  by (induction xs arbitrary: p) (auto split: option.splits)

text \<open>
  C8.  When the walk from \<open>p\<close> passes \<open>pre\<close>, none of which has the attribute, then
  \<open>a\<close>, which has it, and further up another owner \<open>b\<close> that has it too, both
  \<^verbatim>\<open>DynamicScope.__getitem__\<close> (for a name the four mappings miss) and
  \<^verbatim>\<open>Nonlocals.__getitem__\<close> return the value held by \<open>a\<close> and call the listener with
  \<open>a\<close>.
\<close>

theorem walk_stops_at_nearest:
  assumes "reaches st p (pre @ a # mid) b" and "b \<noteq> VNone" and "a \<noteq> b"
      and "\<forall>x\<in>set pre. getattr st x name = None"
      and "getattr st a name = Some v" and "getattr st b name = Some w"
  shows "(obj s = p \<and> dicts st (f_globals s) ''__builtins__'' = Some (VDict bi) \<and>
          spec_first_bound
            [dicts st (overrides s), dicts st (identifiers s), dicts st (f_globals s), dicts st bi]
            name = None \<longrightarrow>
          scope_getitem s st name =
            Some (Inr v, if listener s = VNone then st
                         else st\<lparr>trace := trace st @ [(listener s, a, name, v)]\<rparr>)) \<and>
         (nls_obj (nls st self) = p \<longrightarrow>
          nls_getitem st self name =
            Some (Inr v, if nls_listener (nls st self) = VNone then st
                         else st\<lparr>trace := trace st @ [(nls_listener (nls st self), a, name, v)]\<rparr>))"
proof -
  from assms(1) obtain r where r: "reaches st p pre r" "reaches st r (a # mid) b"
    unfolding reaches_append by blast
  then have a: "reaches st p pre a" "a \<noteq> VNone" by auto
  have 1: "scope_walk s st name p =
     Some (Inr v, if listener s \<noteq> VNone then dynamic_load st (listener s) a name v else st)"
    by (rule scope_walk_found [OF a assms(4,5)])
  have 2: "nls_getitem_loop st self name p =
     Some (Inr v, if nls_listener (nls st self) \<noteq> VNone
                  then dynamic_load st (nls_listener (nls st self)) a name v else st)"
    by (rule nls_getitem_loop_found [OF a assms(4,5)])
  show ?thesis
  proof (intro conjI impI)
    assume h: "obj s = p \<and> dicts st (f_globals s) ''__builtins__'' = Some (VDict bi) \<and>
          spec_first_bound
            [dicts st (overrides s), dicts st (identifiers s), dicts st (f_globals s), dicts st bi]
            name = None"
    then have "scope_getitem s st name = scope_walk s st name p"
      using scope_getitem_tiers [of st s bi name] by simp
    then show "scope_getitem s st name =
            Some (Inr v, if listener s = VNone then st
                         else st\<lparr>trace := trace st @ [(listener s, a, name, v)]\<rparr>)"
      using 1 by (simp add: dynamic_load_def)
  next
    assume "nls_obj (nls st self) = p"
    then show "nls_getitem st self name =
            Some (Inr v, if nls_listener (nls st self) = VNone then st
                         else st\<lparr>trace := trace st @ [(nls_listener (nls st self), a, name, v)]\<rparr>)"
      using 2 by (simp add: nls_getitem_def dynamic_load_def)
  qed
qed

theorem walk_stops_at_nearest_witness:
  "reaches ex_state (VRef 1) ([VRef 1] @ VRef 2 # []) (VRef 3) \<and> VRef 3 \<noteq> VNone \<and>
   VRef 2 \<noteq> VRef 3 \<and>
   getattr ex_state (VRef 1) ''c'' = None \<and>
   getattr ex_state (VRef 2) ''c'' = Some (VInt 3) \<and>
   getattr ex_state (VRef 3) ''c'' = Some (VInt 30) \<and>
   obj ex_scope = VRef 1 \<and>
   dicts ex_state (f_globals ex_scope) ''__builtins__'' = Some (VDict 3) \<and>
   spec_first_bound
     [dicts ex_state (overrides ex_scope), dicts ex_state (identifiers ex_scope),
      dicts ex_state (f_globals ex_scope), dicts ex_state 3] ''c'' = None \<and>
   nls_obj (nls ex_state 0) = VRef 1 \<and>
   scope_getitem ex_scope ex_state ''c'' =
     Some (Inr (VInt 3), ex_state\<lparr>trace := [(VRef 9, VRef 2, ''c'', VInt 3)]\<rparr>) \<and>
   nls_getitem ex_state 0 ''c'' =
     Some (Inr (VInt 3), ex_state\<lparr>trace := [(VRef 9, VRef 2, ''c'', VInt 3)]\<rparr>)"
proof -
  have path: "reaches ex_state (VRef 1) ([VRef 1] @ VRef 2 # []) (VRef 3)"
    by (simp add: ex_defs getattr_def)
  have ne: "VRef 3 \<noteq> VNone" "VRef 2 \<noteq> VRef 3" by simp_all
  have pre: "\<forall>x\<in>set [VRef 1]. getattr ex_state x ''c'' = None"
    by (simp add: ex_defs getattr_def)
  have at: "getattr ex_state (VRef 2) ''c'' = Some (VInt 3)"
    "getattr ex_state (VRef 3) ''c'' = Some (VInt 30)"
    by (simp_all add: ex_defs getattr_def)
  have sc: "obj ex_scope = VRef 1"
    "dicts ex_state (f_globals ex_scope) ''__builtins__'' = Some (VDict 3)"
    "spec_first_bound
     [dicts ex_state (overrides ex_scope), dicts ex_state (identifiers ex_scope),
      dicts ex_state (f_globals ex_scope), dicts ex_state 3] ''c'' = None"
    "nls_obj (nls ex_state 0) = VRef 1"
    by (simp_all add: ex_defs)
  have l: "listener ex_scope = VRef 9" "nls_listener (nls ex_state 0) = VRef 9"
    "trace ex_state = []"
    by (simp_all add: ex_defs)
  from walk_stops_at_nearest [OF path ne pre at, of ex_scope 3 0] sc l
  have "scope_getitem ex_scope ex_state ''c'' =
     Some (Inr (VInt 3), ex_state\<lparr>trace := [(VRef 9, VRef 2, ''c'', VInt 3)]\<rparr>) \<and>
   nls_getitem ex_state 0 ''c'' =
     Some (Inr (VInt 3), ex_state\<lparr>trace := [(VRef 9, VRef 2, ''c'', VInt 3)]\<rparr>)"
    by simp
  moreover have "getattr ex_state (VRef 1) ''c'' = None"
    by (simp add: ex_defs getattr_def)
  ultimately show ?thesis using path ne at sc by blast
qed

section \<open>Membership tests\<close>

lemma reaches_same_objs:
  "objs st2 = objs st \<Longrightarrow> reaches st2 p xs q = reaches st p xs q"
  by (induction xs arbitrary: p) (auto simp: getattr_def split: option.splits)

lemma scope_getitem_quiet:
  assumes "scope_getitem s st name = Some (r, st')" and "listener s = VNone"
  shows "st' = st"
proof -
  have "scope_walk s st name (obj s) = Some (r, st') \<or> st' = st"
    using assms(1)
    by (auto simp: scope_getitem_def Let_def split: if_splits sum.splits bool.splits)
  then show ?thesis using scope_walk_quiet [OF _ assms(2)] by blast
qed

lemma scope_contains_frame:
  assumes "scope_contains s st name = Some (r, s', st')"
  shows "st' = st \<and> s' = s"
proof (cases name)
  case (VStr n)
  from assms VStr obtain x st1 where
    g: "scope_getitem (s\<lparr>listener := VNone\<rparr>) st n = Some (x, st1)" and st': "st' = st1"
    and s': "s' = s\<lparr>listener := VNone\<rparr>\<lparr>listener := listener s\<rparr>"
    by (auto simp: scope_contains_def Let_def split: option.splits sum.splits error.splits)
  from scope_getitem_quiet [OF g] have "st1 = st" by simp
  then show ?thesis using st' s' by simp
qed (use assms in \<open>auto simp: scope_contains_def\<close>)

lemma nls_contains_frame:
  assumes "nls_contains st self name = Some (r, st')"
  shows "st' = st"
proof (cases name)
  case (VStr n)
  let ?st1 = "dict_store st self ''_nls_listener'' VNone"
  from assms VStr obtain x st2 where
    g: "nls_getitem ?st1 self n = Some (x, st2)"
    and st': "st' = dict_store st2 self ''_nls_listener'' (nls_listener (nls st self))"
    by (auto simp: nls_contains_def Let_def split: option.splits sum.splits error.splits)
  have "nls_listener (nls ?st1 self) = VNone" by (simp add: dict_store_def)
  with g have "st2 = ?st1"
    unfolding nls_getitem_def by (rule nls_getitem_loop_quiet)
  then show ?thesis using st' by (simp add: dict_store_restore)
qed (use assms in \<open>auto simp: nls_contains_def\<close>)

lemma contains_non_string:
  assumes "\<forall>n. name \<noteq> VStr n"
  shows "scope_contains s st name = Some (Inr False, s, st)"
    and "nls_contains st self name = Some (Inr False, st)"
  using assms by (cases name; simp add: scope_contains_def nls_contains_def)+

lemma scope_contains_absent:
  assumes "dicts st (f_globals s) ''__builtins__'' = Some (VDict b)"
      and "spec_first_bound
             [dicts st (overrides s), dicts st (identifiers s), dicts st (f_globals s), dicts st b]
             n = None"
      and "chain st (obj s) xs" and "\<forall>x\<in>set xs. getattr st x n = None"
  shows "scope_contains s st (VStr n) = Some (Inr False, s, st)"
proof -
  let ?s1 = "s\<lparr>listener := VNone\<rparr>"
  have "scope_getitem ?s1 st n = scope_walk ?s1 st n (obj s)"
    using scope_getitem_tiers [of st ?s1 b n] assms(1,2) by simp
  also have "\<dots> = Some (Inl (KeyError n), st)"
    by (rule scope_walk_exhausted [OF assms(3,4)])
  finally show ?thesis by (simp add: scope_contains_def Let_def)
qed

lemma scope_contains_bound:
  assumes "dicts st (f_globals s) ''__builtins__'' = Some (VDict b)"
      and "spec_first_bound
             [dicts st (overrides s), dicts st (identifiers s), dicts st (f_globals s), dicts st b]
             n = Some v"
  shows "scope_contains s st (VStr n) = Some (Inr True, s, st)"
proof -
  let ?s1 = "s\<lparr>listener := VNone\<rparr>"
  have "scope_getitem ?s1 st n = Some (Inr v, st)"
    using scope_getitem_tiers [of st ?s1 b n] assms by simp
  then show ?thesis by (simp add: scope_contains_def Let_def)
qed

lemma scope_contains_walk:
  assumes "dicts st (f_globals s) ''__builtins__'' = Some (VDict b)"
      and "spec_first_bound
             [dicts st (overrides s), dicts st (identifiers s), dicts st (f_globals s), dicts st b]
             n = None"
      and "reaches st (obj s) pre a" and "a \<noteq> VNone"
      and "\<forall>x\<in>set pre. getattr st x n = None" and "getattr st a n = Some w"
  shows "scope_contains s st (VStr n) = Some (Inr True, s, st)"
proof -
  let ?s1 = "s\<lparr>listener := VNone\<rparr>"
  have "scope_getitem ?s1 st n = scope_walk ?s1 st n (obj s)"
    using scope_getitem_tiers [of st ?s1 b n] assms(1,2) by simp
  also have "\<dots> = Some (Inr w, st)"
    using scope_walk_found [OF assms(3,4,5,6), of ?s1] by simp
  finally show ?thesis by (simp add: scope_contains_def Let_def)
qed

lemma nls_contains_absent:
  assumes "chain st (nls_obj (nls st self)) xs" and "\<forall>x\<in>set xs. getattr st x n = None"
  shows "nls_contains st self (VStr n) = Some (Inr False, st)"
proof -
  let ?st1 = "dict_store st self ''_nls_listener'' VNone"
  have o: "objs ?st1 = objs st" "nls_obj (nls ?st1 self) = nls_obj (nls st self)"
    by (simp_all add: dict_store_def)
  have r: "\<And>p ys q. reaches ?st1 p ys q = reaches st p ys q"
    by (rule reaches_same_objs) (simp add: o)
  have "chain ?st1 (nls_obj (nls ?st1 self)) xs" using assms(1) by (simp add: chain_def r o)
  moreover have "\<forall>x\<in>set xs. getattr ?st1 x n = None" using assms(2) by (simp add: getattr_def o)
  ultimately have "nls_getitem ?st1 self n = Some (Inl (KeyError n), ?st1)"
    unfolding nls_getitem_def by (rule nls_getitem_loop_exhausted)
  then show ?thesis by (simp add: nls_contains_def Let_def dict_store_restore)
qed

lemma nls_contains_walk:
  assumes "reaches st (nls_obj (nls st self)) pre a" and "a \<noteq> VNone"
      and "\<forall>x\<in>set pre. getattr st x n = None" and "getattr st a n = Some w"
  shows "nls_contains st self (VStr n) = Some (Inr True, st)"
proof -
  let ?st1 = "dict_store st self ''_nls_listener'' VNone"
  have o: "objs ?st1 = objs st" "nls_obj (nls ?st1 self) = nls_obj (nls st self)"
    "nls_listener (nls ?st1 self) = VNone"
    by (simp_all add: dict_store_def)
  have r: "\<And>p ys q. reaches ?st1 p ys q = reaches st p ys q"
    by (rule reaches_same_objs) (simp add: o)
  have 1: "reaches ?st1 (nls_obj (nls ?st1 self)) pre a" using assms(1) by (simp add: r o)
  have 2: "\<forall>x\<in>set pre. getattr ?st1 x n = None" using assms(3) by (simp add: getattr_def o)
  have 3: "getattr ?st1 a n = Some w" using assms(4) by (simp add: getattr_def o)
  have "nls_getitem ?st1 self n = Some (Inr w, ?st1)"
    unfolding nls_getitem_def using nls_getitem_loop_found [OF 1 assms(2) 2 3, of self]
    by (simp add: o)
  then show ?thesis by (simp add: nls_contains_def Let_def dict_store_restore)
qed

text \<open>
  C4.  Whenever \<^verbatim>\<open>DynamicScope.__contains__\<close> or \<^verbatim>\<open>Nonlocals.__contains__\<close> returns,
  the store is the one before the call, so no listener was called, and the scope or
  Nonlocals instance holds the listener it held before.  A name that is not a string
  gives \<^verbatim>\<open>False\<close> at once.  A string that the four mappings miss and that no owner of
  the parent chain has gives \<^verbatim>\<open>False\<close>; a string bound in a mapping, or found at an
  owner on the walk, gives \<^verbatim>\<open>True\<close>, again with nothing changed.
\<close>

theorem contains_never_notifies:
  "(scope_contains s st name = Some (r, s', st') \<longrightarrow> st' = st \<and> s' = s) \<and>
   (nls_contains st self name = Some (r2, st2) \<longrightarrow> st2 = st) \<and>
   ((\<forall>k. name \<noteq> VStr k) \<longrightarrow>
      scope_contains s st name = Some (Inr False, s, st) \<and>
      nls_contains st self name = Some (Inr False, st)) \<and>
   (dicts st (f_globals s) ''__builtins__'' = Some (VDict b) \<and>
    spec_first_bound
      [dicts st (overrides s), dicts st (identifiers s), dicts st (f_globals s), dicts st b]
      n = None \<and>
    chain st (obj s) xs \<and> (\<forall>x\<in>set xs. getattr st x n = None) \<longrightarrow>
      scope_contains s st (VStr n) = Some (Inr False, s, st)) \<and>
   (chain st (nls_obj (nls st self)) xs \<and> (\<forall>x\<in>set xs. getattr st x n = None) \<longrightarrow>
      nls_contains st self (VStr n) = Some (Inr False, st)) \<and>
   (dicts st (f_globals s) ''__builtins__'' = Some (VDict b) \<and>
    spec_first_bound
      [dicts st (overrides s), dicts st (identifiers s), dicts st (f_globals s), dicts st b]
      n = Some v \<longrightarrow>
      scope_contains s st (VStr n) = Some (Inr True, s, st)) \<and>
   (dicts st (f_globals s) ''__builtins__'' = Some (VDict b) \<and>
    spec_first_bound
      [dicts st (overrides s), dicts st (identifiers s), dicts st (f_globals s), dicts st b]
      n = None \<and>
    reaches st (obj s) pre a \<and> a \<noteq> VNone \<and> (\<forall>x\<in>set pre. getattr st x n = None) \<and>
    getattr st a n = Some w \<longrightarrow>
      scope_contains s st (VStr n) = Some (Inr True, s, st)) \<and>
   (reaches st (nls_obj (nls st self)) pre a \<and> a \<noteq> VNone \<and>
    (\<forall>x\<in>set pre. getattr st x n = None) \<and> getattr st a n = Some w \<longrightarrow>
      nls_contains st self (VStr n) = Some (Inr True, st))"
proof (intro conjI impI; (elim conjE)?)
  assume "scope_contains s st name = Some (r, s', st')"
  then show "st' = st" "s' = s" using scope_contains_frame by blast+
next
  assume "nls_contains st self name = Some (r2, st2)"
  then show "st2 = st" by (rule nls_contains_frame)
next
  assume "\<forall>k. name \<noteq> VStr k"
  then show "scope_contains s st name = Some (Inr False, s, st)"
    "nls_contains st self name = Some (Inr False, st)"
    by (rule contains_non_string)+
next
  assume "dicts st (f_globals s) ''__builtins__'' = Some (VDict b)"
    "spec_first_bound
      [dicts st (overrides s), dicts st (identifiers s), dicts st (f_globals s), dicts st b]
      n = None"
    "chain st (obj s) xs" "\<forall>x\<in>set xs. getattr st x n = None"
  then show "scope_contains s st (VStr n) = Some (Inr False, s, st)"
    by (rule scope_contains_absent)
next
  assume "chain st (nls_obj (nls st self)) xs" "\<forall>x\<in>set xs. getattr st x n = None"
  then show "nls_contains st self (VStr n) = Some (Inr False, st)"
    by (rule nls_contains_absent)
next
  assume "dicts st (f_globals s) ''__builtins__'' = Some (VDict b)"
    "spec_first_bound
      [dicts st (overrides s), dicts st (identifiers s), dicts st (f_globals s), dicts st b]
      n = Some v"
  then show "scope_contains s st (VStr n) = Some (Inr True, s, st)"
    by (rule scope_contains_bound)
next
  assume "dicts st (f_globals s) ''__builtins__'' = Some (VDict b)"
    "spec_first_bound
      [dicts st (overrides s), dicts st (identifiers s), dicts st (f_globals s), dicts st b]
      n = None"
    "reaches st (obj s) pre a" "a \<noteq> VNone" "\<forall>x\<in>set pre. getattr st x n = None"
    "getattr st a n = Some w"
  then show "scope_contains s st (VStr n) = Some (Inr True, s, st)"
    by (rule scope_contains_walk)
next
  assume "reaches st (nls_obj (nls st self)) pre a" "a \<noteq> VNone"
    "\<forall>x\<in>set pre. getattr st x n = None" "getattr st a n = Some w"
  then show "nls_contains st self (VStr n) = Some (Inr True, st)"
    by (rule nls_contains_walk)
qed

theorem contains_never_notifies_witness:
  "dicts ex_state (f_globals ex_scope) ''__builtins__'' = Some (VDict 3) \<and>
   chain ex_state (VRef 1) [VRef 1, VRef 2, VRef 3] \<and>
   reaches ex_state (VRef 1) [VRef 1] (VRef 2) \<and>
   getattr ex_state (VRef 2) ''c'' = Some (VInt 3) \<and>
   scope_contains ex_scope ex_state (VStr ''a'') = Some (Inr True, ex_scope, ex_state) \<and>
   scope_contains ex_scope ex_state (VStr ''c'') = Some (Inr True, ex_scope, ex_state) \<and>
   nls_contains ex_state 0 (VStr ''c'') = Some (Inr True, ex_state) \<and>
   scope_contains ex_scope ex_state (VStr ''missing'') = Some (Inr False, ex_scope, ex_state) \<and>
   nls_contains ex_state 0 (VStr ''missing'') = Some (Inr False, ex_state) \<and>
   scope_contains ex_scope ex_state (VInt 7) = Some (Inr False, ex_scope, ex_state) \<and>
   nls_contains ex_state 0 (VInt 7) = Some (Inr False, ex_state) \<and>
   listener ex_scope = VRef 9 \<and> nls_listener (nls ex_state 0) = VRef 9 \<and> trace ex_state = []"
proof -
  have wf: "dicts ex_state (f_globals ex_scope) ''__builtins__'' = Some (VDict 3)"
    by (simp add: ex_defs)
  have fb: "spec_first_bound
     [dicts ex_state (overrides ex_scope), dicts ex_state (identifiers ex_scope),
      dicts ex_state (f_globals ex_scope), dicts ex_state 3] ''a'' = Some (VInt 1)"
    "spec_first_bound
     [dicts ex_state (overrides ex_scope), dicts ex_state (identifiers ex_scope),
      dicts ex_state (f_globals ex_scope), dicts ex_state 3] ''c'' = None"
    "spec_first_bound
     [dicts ex_state (overrides ex_scope), dicts ex_state (identifiers ex_scope),
      dicts ex_state (f_globals ex_scope), dicts ex_state 3] ''missing'' = None"
    by (simp_all add: ex_defs)
  have an: "obj ex_scope = VRef 1" "nls_obj (nls ex_state 0) = VRef 1"
    "listener ex_scope = VRef 9" "nls_listener (nls ex_state 0) = VRef 9" "trace ex_state = []"
    by (simp_all add: ex_defs)
  have ch: "chain ex_state (VRef 1) [VRef 1, VRef 2, VRef 3]"
    by (simp add: chain_def ex_defs getattr_def)
  have none: "\<forall>x\<in>set [VRef 1, VRef 2, VRef 3]. getattr ex_state x ''missing'' = None"
    by (simp add: ex_defs getattr_def)
  have path: "reaches ex_state (VRef 1) [VRef 1] (VRef 2)"
    by (simp add: ex_defs getattr_def)
  have pre: "\<forall>x\<in>set [VRef 1]. getattr ex_state x ''c'' = None"
    by (simp add: ex_defs getattr_def)
  have at: "getattr ex_state (VRef 2) ''c'' = Some (VInt 3)" "VRef 2 \<noteq> VNone"
    by (simp_all add: ex_defs getattr_def)
  note a = contains_never_notifies [where s = ex_scope and st = ex_state and self = 0
      and b = 3 and n = "''a''" and v = "VInt 1" and name = "VInt 7"]
  note c = contains_never_notifies [where s = ex_scope and st = ex_state and self = 0
      and b = 3 and n = "''c''" and pre = "[VRef 1]" and a = "VRef 2" and w = "VInt 3"]
  note m = contains_never_notifies [where s = ex_scope and st = ex_state and self = 0
      and b = 3 and n = "''missing''" and xs = "[VRef 1, VRef 2, VRef 3]"]
  have 1: "scope_contains ex_scope ex_state (VStr ''a'') = Some (Inr True, ex_scope, ex_state)"
    using a wf fb by blast
  have 2: "scope_contains ex_scope ex_state (VInt 7) = Some (Inr False, ex_scope, ex_state)"
    "nls_contains ex_state 0 (VInt 7) = Some (Inr False, ex_state)"
    using a by simp_all
  have 3: "scope_contains ex_scope ex_state (VStr ''c'') = Some (Inr True, ex_scope, ex_state)"
    "nls_contains ex_state 0 (VStr ''c'') = Some (Inr True, ex_state)"
    using c wf fb an path pre at by simp_all
  have 4: "scope_contains ex_scope ex_state (VStr ''missing'') = Some (Inr False, ex_scope, ex_state)"
    "nls_contains ex_state 0 (VStr ''missing'') = Some (Inr False, ex_state)"
    using m wf fb an ch none by simp_all
  show ?thesis using wf ch path at 1 2 3 4 an by blast
qed

section \<open>The Nonlocal Accessor\<close>

lemma nls_setitem_loop_trace:
  assumes "nls_setitem_loop st name v p = Some (r, st')"
  shows "trace st' = trace st"
  using assms
proof (induct st name v p "(r, st')" rule: nls_setitem_loop.raw_induct[rotated 1, consumes 1])
  case (1 f st name v p)
  then show ?case by (auto simp: setattr_def split: if_splits option.splits)
qed

text \<open>
  C6.  \<^verbatim>\<open>Nonlocals.__setitem__\<close> tries \<^verbatim>\<open>setattr\<close> at the owners of the parent chain
  in order.  When the owners \<open>pre\<close> passed first reject the name and the next owner
  \<open>a\<close> accepts it, the call succeeds and the store differs only in the attribute of
  \<open>a\<close>, which now holds the value: owners before and after \<open>a\<close>, the dicts and the
  listener trace are unchanged.  When every owner of the chain rejects the name the
  result is KeyError and the store is unchanged.  Whatever the result, the listener
  trace is the one before the call.
\<close>

theorem setitem_first_accepting:
  "(reaches st (nls_obj (nls st self)) pre a \<and> a \<noteq> VNone \<and>
    (\<forall>x\<in>set pre. name \<notin> settable (objs st x)) \<and> name \<in> settable (objs st a) \<longrightarrow>
      nls_setitem st self name v =
        Some (Inr (),
              st\<lparr>objs := (objs st)(a := (objs st a)\<lparr>attrs := (attrs (objs st a))(name \<mapsto> v)\<rparr>)\<rparr>)) \<and>
   (chain st (nls_obj (nls st self)) xs \<and> (\<forall>x\<in>set xs. name \<notin> settable (objs st x)) \<longrightarrow>
      nls_setitem st self name v = Some (Inl (KeyError name), st)) \<and>
   (nls_setitem st self name v = Some (r, st') \<longrightarrow> trace st' = trace st)"
proof (intro conjI impI; (elim conjE)?)
  assume "nls_setitem st self name v = Some (r, st')"
  then show "trace st' = trace st"
    unfolding nls_setitem_def by (rule nls_setitem_loop_trace)
next
  assume r: "reaches st (nls_obj (nls st self)) pre a" "a \<noteq> VNone"
    and rej: "\<forall>x\<in>set pre. name \<notin> settable (objs st x)"
    and acc: "name \<in> settable (objs st a)"
  have 1: "\<forall>x\<in>set pre. setattr st x name v = None"
    using rej by (simp add: setattr_def)
  have 2: "setattr st a name v =
     Some (st\<lparr>objs := (objs st)(a := (objs st a)\<lparr>attrs := (attrs (objs st a))(name \<mapsto> v)\<rparr>)\<rparr>)"
    using acc by (simp add: setattr_def)
  show "nls_setitem st self name v =
        Some (Inr (),
              st\<lparr>objs := (objs st)(a := (objs st a)\<lparr>attrs := (attrs (objs st a))(name \<mapsto> v)\<rparr>)\<rparr>)"
    unfolding nls_setitem_def by (rule nls_setitem_loop_found [OF r 1 2])
next
  assume "chain st (nls_obj (nls st self)) xs" "\<forall>x\<in>set xs. name \<notin> settable (objs st x)"
  then show "nls_setitem st self name v = Some (Inl (KeyError name), st)"
    unfolding nls_setitem_def by (rule nls_setitem_loop_exhausted)
qed

theorem setitem_first_accepting_witness:
  "reaches ex_state (nls_obj (nls ex_state 0)) [VRef 1] (VRef 2) \<and>
   ''z'' \<notin> settable (objs ex_state (VRef 1)) \<and> ''z'' \<in> settable (objs ex_state (VRef 2)) \<and>
   ''z'' \<in> settable (objs ex_state (VRef 3)) \<and>
   nls_setitem ex_state 0 ''z'' (VInt 5) =
     Some (Inr (),
           ex_state\<lparr>objs := (objs ex_state)(VRef 2 :=
                      (objs ex_state (VRef 2))\<lparr>attrs := (attrs (objs ex_state (VRef 2)))(''z'' \<mapsto> VInt 5)\<rparr>)\<rparr>) \<and>
   chain ex_state (nls_obj (nls ex_state 0)) [VRef 1, VRef 2, VRef 3] \<and>
   nls_setitem ex_state 0 ''y'' (VInt 5) = Some (Inl (KeyError ''y''), ex_state)"
proof -
  have path: "reaches ex_state (nls_obj (nls ex_state 0)) [VRef 1] (VRef 2)"
    by (simp add: ex_defs getattr_def)
  have ch: "chain ex_state (nls_obj (nls ex_state 0)) [VRef 1, VRef 2, VRef 3]"
    by (simp add: chain_def ex_defs getattr_def)
  have z: "''z'' \<notin> settable (objs ex_state (VRef 1))" "''z'' \<in> settable (objs ex_state (VRef 2))"
    "''z'' \<in> settable (objs ex_state (VRef 3))"
    by (simp_all add: ex_defs)
  have y: "\<forall>x\<in>set [VRef 1, VRef 2, VRef 3]. ''y'' \<notin> settable (objs ex_state x)"
    by (simp add: ex_defs)
  have 1: "nls_setitem ex_state 0 ''z'' (VInt 5) =
     Some (Inr (),
           ex_state\<lparr>objs := (objs ex_state)(VRef 2 :=
                      (objs ex_state (VRef 2))\<lparr>attrs := (attrs (objs ex_state (VRef 2)))(''z'' \<mapsto> VInt 5)\<rparr>)\<rparr>)"
    using setitem_first_accepting [where st = ex_state and self = 0 and pre = "[VRef 1]"
        and a = "VRef 2" and name = "''z''" and v = "VInt 5"] path z
    by simp
  have 2: "nls_setitem ex_state 0 ''y'' (VInt 5) = Some (Inl (KeyError ''y''), ex_state)"
    using setitem_first_accepting [where st = ex_state and self = 0
        and xs = "[VRef 1, VRef 2, VRef 3]" and name = "''y''" and v = "VInt 5"] ch y
    by blast
  show ?thesis using path ch z 1 2 by blast
qed

subsection \<open>Operations see an instance only through its two slots\<close>

lemma nls_getitem_same_slots:
  assumes "nls st a = nls st b"
  shows "nls_getitem st a name = nls_getitem st b name"
proof (cases "nls_getitem st a name")
  case None
  show ?thesis
  proof (cases "nls_getitem st b name")
    case (Some y)
    then have "nls_getitem st a name = Some y"
      unfolding nls_getitem_def using assms nls_getitem_loop_cong [of st b name _ y a] by simp
    with None show ?thesis by simp
  qed (simp add: None)
next
  case (Some y)
  then show ?thesis
    unfolding nls_getitem_def using assms nls_getitem_loop_cong [of st a name _ y b] by simp
qed

lemma nls_contains_VStr:
  "nls_contains st self (VStr n) =
     (case nls_getitem (dict_store st self ''_nls_listener'' VNone) self n of
        None \<Rightarrow> None
      | Some (x, st') \<Rightarrow>
          Some (case x of Inl (KeyError k) \<Rightarrow> Inr False | Inl e \<Rightarrow> Inl e | Inr v \<Rightarrow> Inr True,
                dict_store st' self ''_nls_listener'' (nls_listener (nls st self))))"
  by (auto simp: nls_contains_def Let_def split: option.splits sum.splits error.splits)

lemma nls_contains_same_slots_fwd:
  assumes "nls st a = nls st b" and "nls_contains st a name = Some y"
  shows "nls_contains st b name = Some y"
proof (cases name)
  case (VStr n)
  let ?sa = "dict_store st a ''_nls_listener'' VNone"
  let ?sb = "dict_store st b ''_nls_listener'' VNone"
  from assms(2) VStr obtain x st2 where g: "nls_getitem ?sa a n = Some (x, st2)"
    by (auto simp: nls_contains_VStr split: option.splits)
  have o: "objs ?sb = objs ?sa" "nls_obj (nls ?sb b) = nls_obj (nls ?sa a)"
    using assms(1) by (simp_all add: dict_store_def)
  from g obtain st3 where g2: "nls_getitem ?sb b n = Some (x, st3)"
    unfolding nls_getitem_def o using nls_getitem_loop_sim [OF _ o(1)] by blast
  obtain ra sa where ya: "nls_contains st a name = Some (ra, sa)"
    using assms(2) by (cases y) simp
  obtain rb sb where yb: "nls_contains st b name = Some (rb, sb)"
    using g2 VStr by (simp add: nls_contains_VStr)
  have "ra = rb" using ya yb g g2 VStr by (simp add: nls_contains_VStr)
  moreover have "sa = st" "sb = st"
    using ya yb nls_contains_frame by blast+
  ultimately show ?thesis using ya yb assms(2) by simp
qed (use assms in \<open>auto simp: nls_contains_def\<close>)

lemma nls_contains_same_slots:
  assumes "nls st a = nls st b"
  shows "nls_contains st a name = nls_contains st b name"
proof (cases "nls_contains st a name")
  case None
  show ?thesis
  proof (cases "nls_contains st b name")
    case (Some y)
    then have "nls_contains st a name = Some y"
      using nls_contains_same_slots_fwd [of st b a name y] assms by simp
    with None show ?thesis by simp
  qed (simp add: None)
next
  case (Some y)
  then show ?thesis using nls_contains_same_slots_fwd [OF assms] by simp
qed

lemma nls_call_zero:
  "nls_call st self (VInt 0) =
     Some (Inr (nls_count st),
           st\<lparr>nls := (nls st)(nls_count st := nls st self), nls_count := nls_count st + 1\<rparr>)"
proof -
  have "nls_call_loop st 0 (nls_obj (nls st self)) 0 = Some (Inr (nls_obj (nls st self), 0))"
    by (subst nls_call_loop.simps) simp
  then show ?thesis by (cases "nls st self") (simp add: nls_call_def Nonlocals_def)
qed

lemma nls_call_frame:
  assumes "nls_call st self level = Some (r, st')"
  shows "objs st' = objs st \<and> dicts st' = dicts st \<and> trace st' = trace st \<and>
         (\<forall>i. i \<noteq> nls_count st \<longrightarrow> nls st' i = nls st i)"
  using assms
  by (auto simp: nls_call_def Nonlocals_def split: if_splits option.splits sum.splits prod.splits)

subsection \<open>\<^verbatim>\<open>Nonlocals.__call__\<close> on a parent chain\<close>

text \<open>
  The call always returns.  It raises ValueError for a level that is not an int or is
  negative, and for a level greater than the number of owners on the chain; for a
  level up to that number it makes a new instance at the place the walk stands after
  that many steps.
\<close>

lemma nls_call_invalid:
  "\<not> isinstance_int level \<or> int_of level < 0 \<Longrightarrow>
   nls_call st self level = Some (Inl ValueError, st)"
  by (simp add: nls_call_def)

lemma nls_call_reaches:
  assumes "reaches st (nls_obj (nls st self)) pre q" and "isinstance_int level"
      and "int_of level = int (length pre)"
  shows "nls_call st self level =
     Some (Inr (nls_count st),
           st\<lparr>nls := (nls st)(nls_count st := \<lparr>nls_obj = q, nls_listener = nls_listener (nls st self)\<rparr>),
              nls_count := nls_count st + 1\<rparr>)"
proof -
  have "nls_call_loop st (int_of level) (nls_obj (nls st self)) 0 = Some (Inr (q, int_of level))"
    by (rule nls_call_loop_reaches [OF assms(1)]) (simp add: assms(3))
  then show ?thesis using assms(2,3) by (simp add: nls_call_def Nonlocals_def)
qed

lemma nls_call_beyond:
  assumes "chain st (nls_obj (nls st self)) xs" and "isinstance_int level"
      and "int (length xs) < int_of level"
  shows "nls_call st self level = Some (Inl ValueError, st)"
proof -
  have "nls_call_loop st (int_of level) (nls_obj (nls st self)) 0 =
          Some (Inr (VNone, 0 + int (length xs)))"
    by (rule nls_call_loop_short [OF assms(1)]) (simp add: assms(3))
  then show ?thesis using assms(2,3) by (simp add: nls_call_def)
qed

lemma nls_call_returns:
  "\<exists>r. nls_call st self level = Some r"
proof (cases "\<not> isinstance_int level \<or> int_of level < 0")
  case True
  then show ?thesis by (simp add: nls_call_def)
next
  case False
  then have "0 \<le> int_of level" by simp
  from nls_call_loop_total [OF this] obtain r where
    "nls_call_loop st (int_of level) (nls_obj (nls st self)) 0 = Some r" by blast
  then show ?thesis using False
    by (auto simp: nls_call_def Nonlocals_def split: sum.splits prod.splits)
qed

text \<open>
  C2.  The instance is anchored at Root, whose parent is \<^verbatim>\<open>None\<close>, so that no owner
  lies one level up.  \<^verbatim>\<open>Nonlocals.__call__\<close> with level 1 does not raise ValueError:
  the loop ends with \<open>target\<close> \<^verbatim>\<open>None\<close> and \<open>offset\<close> equal to the level, and the
  call returns a new instance anchored at \<^verbatim>\<open>None\<close>.
\<close>

theorem at_level_one_past_root:
  "nls_call ex_state_root 0 (VInt 1) =
     Some (Inr 1,
           ex_state_root\<lparr>nls := (nls ex_state_root)(1 := \<lparr>nls_obj = VNone, nls_listener = VRef 9\<rparr>),
                          nls_count := 2\<rparr>)"
proof -
  have "nls_call_loop ex_state_root 1 (VRef 3) 0 = Some (Inr (VNone, 1))"
    by (subst nls_call_loop.simps, simp add: ex_defs getattr_def,
        subst nls_call_loop.simps, simp)
  then show ?thesis
    by (simp add: nls_call_def Nonlocals_def ex_defs)
qed

theorem at_level_one_past_root_anchor:
  "getattr ex_state_root (nls_obj (nls ex_state_root 0)) ''parent'' = Some VNone \<and>
   (\<exists>new st'. nls_call ex_state_root 0 (VInt 1) = Some (Inr new, st') \<and>
      nls_obj (nls st' new) = VNone \<and>
      nls_getitem st' new ''c'' = Some (Inl (KeyError ''c''), st'))"
proof -
  let ?st' = "ex_state_root\<lparr>nls := (nls ex_state_root)(1 := \<lparr>nls_obj = VNone, nls_listener = VRef 9\<rparr>),
                          nls_count := 2\<rparr>"
  have "getattr ex_state_root (nls_obj (nls ex_state_root 0)) ''parent'' = Some VNone"
    by (simp add: ex_defs getattr_def)
  moreover have "nls_obj (nls ?st' 1) = VNone" by simp
  moreover have "nls_getitem ?st' 1 ''c'' = Some (Inl (KeyError ''c''), ?st')"
    unfolding nls_getitem_def by (subst nls_getitem_loop.simps) simp
  ultimately show ?thesis using at_level_one_past_root by blast
qed

text \<open>
  C9.  For an instance allocated earlier, \<^verbatim>\<open>Nonlocals.__call__\<close> with level 0 returns a
  new instance, of another identity, with the same anchor and the same listener;
  \<^verbatim>\<open>__getitem__\<close>, \<^verbatim>\<open>__setitem__\<close> and \<^verbatim>\<open>__contains__\<close> give on it what they give on
  the original.  With any level, a call that returns leaves the original's anchor and
  listener, the objects, the dicts and the listener trace as they were.
\<close>

theorem at_level_zero_same_accessor:
  assumes "self < nls_count st"
  shows "(\<exists>new st'. nls_call st self (VInt 0) = Some (Inr new, st') \<and> new \<noteq> self \<and>
            nls_obj (nls st' new) = nls_obj (nls st self) \<and>
            nls_listener (nls st' new) = nls_listener (nls st self) \<and>
            (\<forall>name. nls_getitem st' new name = nls_getitem st' self name) \<and>
            (\<forall>name v. nls_setitem st' new name v = nls_setitem st' self name v) \<and>
            (\<forall>name. nls_contains st' new name = nls_contains st' self name)) \<and>
         (nls_call st self level = Some (r, st2) \<longrightarrow>
            nls_obj (nls st2 self) = nls_obj (nls st self) \<and>
            nls_listener (nls st2 self) = nls_listener (nls st self) \<and>
            objs st2 = objs st \<and> dicts st2 = dicts st \<and> trace st2 = trace st)"
proof (intro conjI impI)
  let ?new = "nls_count st"
  let ?st' = "st\<lparr>nls := (nls st)(nls_count st := nls st self), nls_count := nls_count st + 1\<rparr>"
  have same: "nls ?st' ?new = nls ?st' self" using assms by simp
  have "nls_call st self (VInt 0) = Some (Inr ?new, ?st')" by (rule nls_call_zero)
  moreover have "?new \<noteq> self" using assms by simp
  moreover have "nls_obj (nls ?st' ?new) = nls_obj (nls st self)"
    "nls_listener (nls ?st' ?new) = nls_listener (nls st self)" by simp_all
  moreover have "\<forall>name. nls_getitem ?st' ?new name = nls_getitem ?st' self name"
    using nls_getitem_same_slots [OF same] by blast
  moreover have "\<forall>name v. nls_setitem ?st' ?new name v = nls_setitem ?st' self name v"
    using same by (simp add: nls_setitem_def)
  moreover have "\<forall>name. nls_contains ?st' ?new name = nls_contains ?st' self name"
    using nls_contains_same_slots [OF same] by blast
  ultimately show "\<exists>new st'. nls_call st self (VInt 0) = Some (Inr new, st') \<and> new \<noteq> self \<and>
            nls_obj (nls st' new) = nls_obj (nls st self) \<and>
            nls_listener (nls st' new) = nls_listener (nls st self) \<and>
            (\<forall>name. nls_getitem st' new name = nls_getitem st' self name) \<and>
            (\<forall>name v. nls_setitem st' new name v = nls_setitem st' self name v) \<and>
            (\<forall>name. nls_contains st' new name = nls_contains st' self name)"
    by blast
next
  assume c: "nls_call st self level = Some (r, st2)"
  from nls_call_frame [OF c] assms
  show "nls_obj (nls st2 self) = nls_obj (nls st self)"
    "nls_listener (nls st2 self) = nls_listener (nls st self)"
    "objs st2 = objs st" "dicts st2 = dicts st" "trace st2 = trace st"
    by simp_all
qed

theorem at_level_zero_same_accessor_witness:
  "(0::nat) < nls_count ex_state \<and>
   (\<exists>new st'. nls_call ex_state 0 (VInt 0) = Some (Inr new, st') \<and> new \<noteq> 0 \<and>
      nls_obj (nls st' new) = VRef 1 \<and> nls_listener (nls st' new) = VRef 9 \<and>
      nls_getitem st' new ''c'' = nls_getitem st' 0 ''c'' \<and>
      nls_setitem st' new ''z'' (VInt 5) = nls_setitem st' 0 ''z'' (VInt 5) \<and>
      nls_contains st' new (VStr ''c'') = nls_contains st' 0 (VStr ''c'')) \<and>
   (\<exists>st2. nls_call ex_state 0 (VInt 2) = Some (Inr 1, st2) \<and>
      nls_obj (nls st2 1) = VRef 3 \<and>
      nls_obj (nls st2 0) = VRef 1 \<and> nls_listener (nls st2 0) = VRef 9 \<and>
      objs st2 = ex_objs \<and> trace st2 = [])"
proof -
  have a: "(0::nat) < nls_count ex_state" by (simp add: ex_defs)
  have e: "nls_obj (nls ex_state 0) = VRef 1" "nls_listener (nls ex_state 0) = VRef 9"
    "objs ex_state = ex_objs" "trace ex_state = []" "nls_count ex_state = 1"
    by (simp_all add: ex_defs)
  have path: "reaches ex_state (nls_obj (nls ex_state 0)) [VRef 1, VRef 2] (VRef 3)"
    by (simp add: ex_defs getattr_def)
  from nls_call_reaches [OF path, of "VInt 2"] obtain st2 where
    c: "nls_call ex_state 0 (VInt 2) = Some (Inr 1, st2)" and n: "nls_obj (nls st2 1) = VRef 3"
    by (simp add: e)
  from at_level_zero_same_accessor [OF a, of "VInt 2" "Inr 1" st2] c e
  have 2: "nls_obj (nls st2 0) = VRef 1 \<and> nls_listener (nls st2 0) = VRef 9 \<and>
      objs st2 = ex_objs \<and> trace st2 = []"
    by simp
  from at_level_zero_same_accessor [OF a, of "VInt 2" "Inr 1" st2]
  obtain new st' where k: "nls_call ex_state 0 (VInt 0) = Some (Inr new, st')" "new \<noteq> 0"
      "nls_obj (nls st' new) = nls_obj (nls ex_state 0)"
      "nls_listener (nls st' new) = nls_listener (nls ex_state 0)"
      "\<forall>name. nls_getitem st' new name = nls_getitem st' 0 name"
      "\<forall>name v. nls_setitem st' new name v = nls_setitem st' 0 name v"
      "\<forall>name. nls_contains st' new name = nls_contains st' 0 name"
    by blast
  have 1: "\<exists>new st'. nls_call ex_state 0 (VInt 0) = Some (Inr new, st') \<and> new \<noteq> 0 \<and>
      nls_obj (nls st' new) = VRef 1 \<and> nls_listener (nls st' new) = VRef 9 \<and>
      nls_getitem st' new ''c'' = nls_getitem st' 0 ''c'' \<and>
      nls_setitem st' new ''z'' (VInt 5) = nls_setitem st' 0 ''z'' (VInt 5) \<and>
      nls_contains st' new (VStr ''c'') = nls_contains st' 0 (VStr ''c'')"
    by (intro exI [of _ new] exI [of _ st']) (simp add: k e)
  show ?thesis using a 1 2 c n by blast
qed

subsection \<open>The attribute-style failures\<close>

text \<open>
  When the name is not found (or not settable) anywhere, \<^verbatim>\<open>__getattr__\<close> and
  \<^verbatim>\<open>__setattr__\<close> build their message from \<^verbatim>\<open>self\<close>.  If some owner has an attribute
  \<^verbatim>\<open>_obj\<close>, that lookup notifies the listener and AttributeError is raised from the
  store it leaves; if none has, as in the example, the result is RuntimeError.
\<close>

lemma nls_getattr_message:
  assumes "nls_getitem st self name = Some (Inl (KeyError k), st1)"
      and "nls_getitem st1 self ''_obj'' = Some (Inr v, st2)"
  shows "nls_getattr (Suc d) st self name = Some (Inl AttributeError, st2)"
  using assms by simp

lemma nls_setattr_message:
  assumes "name \<noteq> ''_nls_obj''" and "name \<noteq> ''_nls_listener''"
      and "nls_setitem st self name val = Some (Inl (KeyError k), st1)"
      and "nls_getitem st1 self ''_obj'' = Some (Inr v, st2)"
  shows "nls_setattr (Suc d) st self name val = Some (Inl AttributeError, st2)"
  using assms by (simp add: nls_setattr_def)

lemma nls_getattr_no_obj_example:
  "nls_getattr 2 ex_state 0 ''missing'' = Some (Inl RuntimeError, ex_state)"
proof -
  have ch: "chain ex_state (nls_obj (nls ex_state 0)) [VRef 1, VRef 2, VRef 3]"
    by (simp add: chain_def ex_defs getattr_def)
  have m: "nls_getitem ex_state 0 ''missing'' = Some (Inl (KeyError ''missing''), ex_state)"
    unfolding nls_getitem_def
    by (rule nls_getitem_loop_exhausted [OF ch]) (simp add: ex_defs getattr_def)
  have o: "nls_getitem ex_state 0 ''_obj'' = Some (Inl (KeyError ''_obj''), ex_state)"
    unfolding nls_getitem_def
    by (rule nls_getitem_loop_exhausted [OF ch]) (simp add: ex_defs getattr_def)
  show ?thesis by (simp add: m o numeral_2_eq_2)
qed

text \<open>
  C10.  \<^verbatim>\<open>Nonlocals.__setattr__\<close> with the name \<^verbatim>\<open>_nls_obj\<close> or \<^verbatim>\<open>_nls_listener\<close> always
  succeeds and changes nothing but that slot of the instance: no object of the store
  is written, whatever the owners would accept.  A later \<^verbatim>\<open>__getitem__\<close> starts at the
  new anchor, and calls the new listener.
\<close>

theorem setattr_reserved_rebinds_slot:
  "nls_setattr d st self ''_nls_obj'' v =
     Some (Inr (), st\<lparr>nls := (nls st)(self := (nls st self)\<lparr>nls_obj := v\<rparr>)\<rparr>) \<and>
   nls_setattr d st self ''_nls_listener'' v =
     Some (Inr (), st\<lparr>nls := (nls st)(self := (nls st self)\<lparr>nls_listener := v\<rparr>)\<rparr>) \<and>
   (nls_setattr d st self ''_nls_obj'' v = Some (r, st') \<and> v \<noteq> VNone \<and>
    getattr st v name = Some w \<longrightarrow>
      objs st' = objs st \<and>
      nls_getitem st' self name =
        Some (Inr w, if nls_listener (nls st self) = VNone then st'
                     else st'\<lparr>trace := trace st @ [(nls_listener (nls st self), v, name, w)]\<rparr>)) \<and>
   (nls_setattr d st self ''_nls_listener'' v = Some (r, st') \<and> v \<noteq> VNone \<and>
    nls_obj (nls st self) \<noteq> VNone \<and> getattr st (nls_obj (nls st self)) name = Some w \<longrightarrow>
      objs st' = objs st \<and>
      nls_getitem st' self name =
        Some (Inr w, st'\<lparr>trace := trace st @ [(v, nls_obj (nls st self), name, w)]\<rparr>))"
proof (intro conjI impI; (elim conjE)?)
  show "nls_setattr d st self ''_nls_obj'' v =
     Some (Inr (), st\<lparr>nls := (nls st)(self := (nls st self)\<lparr>nls_obj := v\<rparr>)\<rparr>)"
    by (simp add: nls_setattr_def dict_store_def)
  show "nls_setattr d st self ''_nls_listener'' v =
     Some (Inr (), st\<lparr>nls := (nls st)(self := (nls st self)\<lparr>nls_listener := v\<rparr>)\<rparr>)"
    by (simp add: nls_setattr_def dict_store_def)
next
  assume c: "nls_setattr d st self ''_nls_obj'' v = Some (r, st')" and v: "v \<noteq> VNone"
    and g: "getattr st v name = Some w"
  from c have st': "st' = st\<lparr>nls := (nls st)(self := (nls st self)\<lparr>nls_obj := v\<rparr>)\<rparr>"
    by (simp add: nls_setattr_def dict_store_def)
  then show "objs st' = objs st" by simp
  have "nls_getitem_loop st' self name v =
     Some (Inr w, if nls_listener (nls st' self) \<noteq> VNone
                  then dynamic_load st' (nls_listener (nls st' self)) v name w else st')"
    using g v by (subst nls_getitem_loop.simps) (simp add: st' getattr_def)
  then show "nls_getitem st' self name =
        Some (Inr w, if nls_listener (nls st self) = VNone then st'
                     else st'\<lparr>trace := trace st @ [(nls_listener (nls st self), v, name, w)]\<rparr>)"
    by (simp add: nls_getitem_def st' dynamic_load_def)
next
  assume c: "nls_setattr d st self ''_nls_listener'' v = Some (r, st')" and v: "v \<noteq> VNone"
    and a: "nls_obj (nls st self) \<noteq> VNone"
    and g: "getattr st (nls_obj (nls st self)) name = Some w"
  from c have st': "st' = st\<lparr>nls := (nls st)(self := (nls st self)\<lparr>nls_listener := v\<rparr>)\<rparr>"
    by (simp add: nls_setattr_def dict_store_def)
  then show "objs st' = objs st" by simp
  have "nls_getitem_loop st' self name (nls_obj (nls st self)) =
     Some (Inr w, if nls_listener (nls st' self) \<noteq> VNone
                  then dynamic_load st' (nls_listener (nls st' self)) (nls_obj (nls st self)) name w
                  else st')"
    using g a by (subst nls_getitem_loop.simps) (simp add: st' getattr_def)
  then show "nls_getitem st' self name =
        Some (Inr w, st'\<lparr>trace := trace st @ [(v, nls_obj (nls st self), name, w)]\<rparr>)"
    using v by (simp add: nls_getitem_def st' dynamic_load_def)
qed

theorem setattr_reserved_rebinds_slot_witness:
  "getattr ex_state (VRef 3) ''c'' = Some (VInt 30) \<and>
   (\<exists>st'. nls_setattr 1000 ex_state 0 ''_nls_obj'' (VRef 3) = Some (Inr (), st') \<and>
      objs st' = ex_objs \<and> nls_obj (nls st' 0) = VRef 3 \<and>
      nls_getitem st' 0 ''c'' =
        Some (Inr (VInt 30), st'\<lparr>trace := [(VRef 9, VRef 3, ''c'', VInt 30)]\<rparr>)) \<and>
   getattr ex_state_root (VRef 3) ''c'' = Some (VInt 30) \<and>
   (\<exists>st'. nls_setattr 1000 ex_state_root 0 ''_nls_listener'' (VRef 8) = Some (Inr (), st') \<and>
      objs st' = ex_objs \<and> nls_listener (nls st' 0) = VRef 8 \<and>
      nls_getitem st' 0 ''c'' =
        Some (Inr (VInt 30), st'\<lparr>trace := [(VRef 8, VRef 3, ''c'', VInt 30)]\<rparr>))"
proof -
  let ?s1 = "ex_state\<lparr>nls := (nls ex_state)(0 := (nls ex_state 0)\<lparr>nls_obj := VRef 3\<rparr>)\<rparr>"
  let ?s2 = "ex_state_root\<lparr>nls := (nls ex_state_root)(0 := (nls ex_state_root 0)\<lparr>nls_listener := VRef 8\<rparr>)\<rparr>"
  have g: "getattr ex_state (VRef 3) ''c'' = Some (VInt 30)"
    "getattr ex_state_root (VRef 3) ''c'' = Some (VInt 30)"
    by (simp_all add: ex_defs getattr_def)
  have e: "nls_listener (nls ex_state 0) = VRef 9" "trace ex_state = []" "objs ex_state = ex_objs"
    "nls_obj (nls ex_state_root 0) = VRef 3" "trace ex_state_root = []"
    "objs ex_state_root = ex_objs"
    by (simp_all add: ex_defs)
  note t1 = setattr_reserved_rebinds_slot [where d = 1000 and st = ex_state and self = 0 and v = "VRef 3"
      and r = "Inr ()" and st' = ?s1 and name = "''c''" and w = "VInt 30"]
  note t2 = setattr_reserved_rebinds_slot [where d = 1000 and st = ex_state_root and self = 0 and v = "VRef 8"
      and r = "Inr ()" and st' = ?s2 and name = "''c''" and w = "VInt 30"]
  have 1: "nls_setattr 1000 ex_state 0 ''_nls_obj'' (VRef 3) = Some (Inr (), ?s1)"
    using t1 by blast
  have 2: "nls_setattr 1000 ex_state_root 0 ''_nls_listener'' (VRef 8) = Some (Inr (), ?s2)"
    using t2 by blast
  have 3: "objs ?s1 = ex_objs \<and> nls_obj (nls ?s1 0) = VRef 3 \<and>
      nls_getitem ?s1 0 ''c'' =
        Some (Inr (VInt 30), ?s1\<lparr>trace := [(VRef 9, VRef 3, ''c'', VInt 30)]\<rparr>)"
    using t1 1 g e by simp
  have 4: "objs ?s2 = ex_objs \<and> nls_listener (nls ?s2 0) = VRef 8 \<and>
      nls_getitem ?s2 0 ''c'' =
        Some (Inr (VInt 30), ?s2\<lparr>trace := [(VRef 8, VRef 3, ''c'', VInt 30)]\<rparr>)"
    using t2 2 g e by simp
  show ?thesis using g 1 2 3 4 by blast
qed

end
